theory Spec2Isabelle
  imports Main "HOL-Library.Word" "HOL-Library.Multiset"
begin

unbundle bit_operations_syntax

section \<open>Status codes and versions\<close>

text \<open>
  \<^verbatim>\<open>Status\<close> of \<^verbatim>\<open>common/status.h\<close>, restricted to the codes that
  \<^verbatim>\<open>tablet_updates.cpp\<close> produces itself; \<open>IOError\<close> stands for any failure
  reported by the metadata store or the thread pool.
\<close>

datatype Status = OK | InternalError | NotFound | TimedOut | IOError

text \<open>
  \<^verbatim>\<open>EditVersion\<close> is a pair of \<^verbatim>\<open>int64_t\<close>. Versions are modelled as
  mathematical integers: the only arithmetic on them is \<^verbatim>\<open>major() + 1\<close>, which is
  undefined in C++ at \<open>2^63 - 1\<close> and is not given a meaning here.
\<close>

record EditVersion =
  major :: int
  minor :: int

text \<open>
  Modelled from the spec: \<^verbatim>\<open>EditVersion::operator<\<close> is declared in
  \<^verbatim>\<open>tablet_updates.h\<close>, which is not among the sources; the spec orders versions
  lexicographically.
\<close>

definition EditVersion_less :: "EditVersion \<Rightarrow> EditVersion \<Rightarrow> bool" where
  "EditVersion_less a b \<longleftrightarrow> major a < major b \<or> (major a = major b \<and> minor a < minor b)"

record CompactionInfo =
  start_version :: EditVersion
  inputs :: "32 word list"
  output_id :: "32 word"

record EditVersionInfo =
  version :: EditVersion
  creation_time :: int
  rowsets :: "32 word list"
  deltas :: "32 word list"
  compaction :: "CompactionInfo option"

text \<open>The persisted form of a log entry (\<^verbatim>\<open>EditVersionMetaPB\<close>), as far as
  \<^verbatim>\<open>_rowset_commit_unlocked\<close> fills it.\<close>

record EditVersionMetaPB =
  pb_version :: EditVersion
  pb_creation_time :: int
  pb_rowsets :: "32 word list"
  pb_rowsets_add :: "32 word list"
  pb_deltas :: "32 word list"
  pb_rowsetid_add :: "32 word"

section \<open>Rowsets and their statistics\<close>

text \<open>
  A rowset as \<^verbatim>\<open>TabletUpdates\<close> sees it through the \<^verbatim>\<open>Rowset\<close> interface:
  its unique \<^verbatim>\<open>rowset_id()\<close>, \<^verbatim>\<open>num_segments()\<close>, \<^verbatim>\<open>num_rows()\<close>,
  \<^verbatim>\<open>data_disk_size()\<close>, and what \<^verbatim>\<open>make_commit(version, rowset_seg_id)\<close> stamps on it.
\<close>

record Rowset =
  rowset_id :: nat
  rowset_num_segments :: "64 word"
  rowset_num_rows :: "64 word"
  data_disk_size :: "64 word"
  commit_version :: "int option"
  rowset_seg_id :: "32 word"

definition make_commit :: "int \<Rightarrow> 32 word \<Rightarrow> Rowset \<Rightarrow> Rowset" where
  "make_commit v rowsetid r = r\<lparr>commit_version := Some v, rowset_seg_id := rowsetid\<rparr>"

text \<open>\<^verbatim>\<open>RowsetStats\<close>: four \<^verbatim>\<open>size_t\<close> counters and the \<^verbatim>\<open>int64_t\<close> score, all
  64-bit words (the score is read as a signed value).\<close>

record RowsetStats =
  num_segments :: "64 word"
  num_rows :: "64 word"
  num_dels :: "64 word"
  byte_size :: "64 word"
  compaction_score :: "64 word"

text \<open>
  \<^verbatim>\<open>_calc_compaction_score\<close>. The constant \<^verbatim>\<open>_compaction_cost_seek\<close> is declared in
  the header, which is not among the sources: it is the parameter \<open>seek\<close>. The estimate
  \<^verbatim>\<open>(int64_t)(byte_size * (double)num_dels / num_rows)\<close> is computed in double precision;
  it is the parameter \<open>est\<close>, a function of \<open>byte_size\<close>, \<open>num_dels\<close> and
  \<open>num_rows\<close>. The sum mixes \<^verbatim>\<open>int64_t\<close> and \<^verbatim>\<open>size_t\<close>, so C++ evaluates it
  modulo \<open>2^64\<close>, as the word operations do.
\<close>

definition cost_record_write :: "64 word" where
  "cost_record_write = 1"

definition cost_record_read :: "64 word" where
  "cost_record_read = 4"

definition calc_compaction_score ::
  "64 word \<Rightarrow> (64 word \<Rightarrow> 64 word \<Rightarrow> 64 word \<Rightarrow> 64 word) \<Rightarrow> RowsetStats \<Rightarrow> RowsetStats" where
  "calc_compaction_score seek est stats =
     (if num_rows stats < 10 then stats\<lparr>compaction_score := seek\<rparr>
      else
        let delete_bytes = est (byte_size stats) (num_dels stats) (num_rows stats)
        in stats\<lparr>compaction_score :=
             seek + (cost_record_read + cost_record_write) * delete_bytes
               - cost_record_write * byte_size stats\<rparr>)"

section \<open>The metadata store\<close>

text \<open>
  Modelled from the spec: \<^verbatim>\<open>KVStore\<close>, \<^verbatim>\<open>RowsetMetaManager\<close> and
  \<^verbatim>\<open>TabletMetaManager\<close> are not among the sources. The spec describes a key-value
  store with atomic batched writes holding rowset metadata by rowset id, edit-log entries
  by log id and pending-rowset entries by version. A write either lands as a whole or
  fails and leaves the store as it was; \<open>write_results\<close> lists the outcomes of the
  coming writes (none left: the write succeeds).
\<close>

record KVStore =
  rowset_metas :: "nat set"
  pending_rowsets :: "int \<rightharpoonup> nat"
  edit_logs :: "(nat \<times> EditVersionMetaPB) list"
  write_results :: "Status list"

definition next_result :: "KVStore \<Rightarrow> Status \<times> KVStore" where
  "next_result kv =
     (case write_results kv of
        [] \<Rightarrow> (OK, kv)
      | st # rest \<Rightarrow> (st, kv\<lparr>write_results := rest\<rparr>))"

definition RowsetMetaManager_remove :: "nat \<Rightarrow> KVStore \<Rightarrow> Status \<times> KVStore" where
  "RowsetMetaManager_remove rid kv =
     (case next_result kv of
        (st, kv') \<Rightarrow>
          if st = OK then (OK, kv'\<lparr>rowset_metas := rowset_metas kv' - {rid}\<rparr>) else (st, kv'))"

definition pending_rowset_commit :: "int \<Rightarrow> Rowset \<Rightarrow> KVStore \<Rightarrow> Status \<times> KVStore" where
  "pending_rowset_commit v r kv =
     (case next_result kv of
        (st, kv') \<Rightarrow>
          if st = OK
          then (OK, kv'\<lparr>pending_rowsets := (pending_rowsets kv')(v \<mapsto> rowset_id r)\<rparr>)
          else (st, kv'))"

definition meta_rowset_commit ::
  "nat \<Rightarrow> EditVersionMetaPB \<Rightarrow> Rowset \<Rightarrow> KVStore \<Rightarrow> Status \<times> KVStore" where
  "meta_rowset_commit logid edit r kv =
     (case next_result kv of
        (st, kv') \<Rightarrow>
          if st = OK
          then (OK, kv'\<lparr>edit_logs := edit_logs kv' @ [(logid, edit)],
                         rowset_metas := insert (rowset_id r) (rowset_metas kv')\<rparr>)
          else (st, kv'))"

section \<open>The state of \<^verbatim>\<open>TabletUpdates\<close>\<close>

text \<open>
  The members of the class that the modelled functions read or write.
  \<^verbatim>\<open>_pending_commits\<close> is a \<^verbatim>\<open>std::map<int64_t, RowsetSharedPtr>\<close>: an
  association list kept in ascending key order, without duplicate keys.
  \<open>meta\<close> is the data directory's store, \<open>clock\<close> what \<^verbatim>\<open>time(nullptr)\<close>
  returns, \<open>submit_results\<close> the outcomes of the coming submissions to the apply
  thread pool.
\<close>

record TabletUpdates =
  error :: bool
  versions :: "EditVersionInfo list"
  apply_version_idx :: nat
  pending_commits :: "(int \<times> Rowset) list"
  next_rowset_id :: "32 word"
  next_log_id :: nat
  tablet_rowsets :: "32 word \<rightharpoonup> Rowset"
  rowset_stats :: "32 word \<rightharpoonup> RowsetStats"
  apply_stopped :: bool
  apply_running :: bool
  submit_results :: "Status list"
  clock :: int
  meta :: KVStore

definition max_version :: "TabletUpdates \<Rightarrow> int" where
  "max_version s = (if versions s = [] then 0 else major (version (last (versions s))))"

definition num_rowsets :: "TabletUpdates \<Rightarrow> nat" where
  "num_rowsets s = (if versions s = [] then 0 else length (rowsets (last (versions s))))"

definition num_pending :: "TabletUpdates \<Rightarrow> nat" where
  "num_pending s = length (pending_commits s)"

text \<open>\<^verbatim>\<open>data_size()\<close>: the sizes of the last version's rowsets that have statistics.\<close>

fun sum_byte_size :: "(32 word \<rightharpoonup> RowsetStats) \<Rightarrow> 32 word list \<Rightarrow> 64 word \<Rightarrow> 64 word" where
  "sum_byte_size st [] total_size = total_size"
| "sum_byte_size st (r # rs) total_size =
     (case st r of
        Some x \<Rightarrow> sum_byte_size st rs (total_size + byte_size x)
      | None \<Rightarrow> sum_byte_size st rs total_size)"

definition data_size :: "TabletUpdates \<Rightarrow> 64 word" where
  "data_size s = sum_byte_size (rowset_stats s) (rowsets (last (versions s))) 0"

definition set_error :: "TabletUpdates \<Rightarrow> TabletUpdates" where
  "set_error s = s\<lparr>error := True\<rparr>"

definition ignore_rowset_commit :: "int \<Rightarrow> Rowset \<Rightarrow> TabletUpdates \<Rightarrow> TabletUpdates" where
  "ignore_rowset_commit v r s = s\<lparr>meta := snd (RowsetMetaManager_remove (rowset_id r) (meta s))\<rparr>"

section \<open>Committing a rowset\<close>

text \<open>\<^verbatim>\<open>_rowset_commit_unlocked\<close>. The rowset is stamped by \<^verbatim>\<open>make_commit\<close> before
  the write, so that a failed write leaves the stamp on it; the second component of the
  result is the rowset after the call.\<close>

definition rowset_commit_unlocked ::
  "64 word \<Rightarrow> (64 word \<Rightarrow> 64 word \<Rightarrow> 64 word \<Rightarrow> 64 word) \<Rightarrow> int \<Rightarrow> Rowset \<Rightarrow> TabletUpdates
     \<Rightarrow> Status \<times> Rowset \<times> TabletUpdates" where
  "rowset_commit_unlocked seek est v r s =
     (let rowsetid = next_rowset_id s;
          nrs = (if versions s = [] then [rowsetid]
                 else rowsets (last (versions s)) @ [rowsetid]);
          full = (versions s = [] \<or> length nrs \<le> 16);
          rowsetid_add = max 1 (ucast (rowset_num_segments r) :: 32 word);
          edit = \<lparr>pb_version = \<lparr>major = v, minor = 0\<rparr>,
                  pb_creation_time = clock s,
                  pb_rowsets = (if full then nrs else []),
                  pb_rowsets_add = (if full then [] else [rowsetid]),
                  pb_deltas = [rowsetid],
                  pb_rowsetid_add = rowsetid_add\<rparr>;
          r' = make_commit v rowsetid r
      in case meta_rowset_commit (next_log_id s) edit r' (meta s) of
           (st, kv') \<Rightarrow>
             if st \<noteq> OK then (st, r', s\<lparr>meta := kv'\<rparr>)
             else
               let newversion = \<lparr>version = \<lparr>major = v, minor = 0\<rparr>,
                                  creation_time = clock s,
                                  rowsets = nrs,
                                  deltas = [rowsetid],
                                  compaction = None\<rparr>;
                   stats = calc_compaction_score seek est
                             \<lparr>num_segments = rowset_num_segments r',
                              num_rows = rowset_num_rows r',
                              num_dels = 0,
                              byte_size = data_disk_size r',
                              compaction_score = 0\<rparr>
               in (OK, r',
                   s\<lparr>meta := kv',
                     next_log_id := next_log_id s + 1,
                     next_rowset_id := next_rowset_id s + rowsetid_add,
                     versions := versions s @ [newversion],
                     tablet_rowsets := (tablet_rowsets s)(rowsetid \<mapsto> r'),
                     rowset_stats :=
                       (case rowset_stats s rowsetid of
                          None \<Rightarrow> (rowset_stats s)(rowsetid \<mapsto> stats)
                        | Some old \<Rightarrow> rowset_stats s)\<rparr>))"

text \<open>
  The loop of \<^verbatim>\<open>_try_commit_pendings_unlocked\<close>, over the entries from the iterator
  on. Every entry before the iterator has been erased, so the map is the remaining list:
  \<open>pending_commits\<close> is written back at each exit.
\<close>

fun commit_pendings_loop ::
  "64 word \<Rightarrow> (64 word \<Rightarrow> 64 word \<Rightarrow> 64 word \<Rightarrow> 64 word) \<Rightarrow> int \<Rightarrow> (int \<times> Rowset) list
     \<Rightarrow> TabletUpdates \<Rightarrow> TabletUpdates" where
  "commit_pendings_loop seek est current_version [] s = s\<lparr>pending_commits := []\<rparr>"
| "commit_pendings_loop seek est current_version ((v, r) # ps) s =
     (if v \<le> current_version
      then commit_pendings_loop seek est current_version ps (ignore_rowset_commit v r s)
      else if v = current_version + 1
      then (case rowset_commit_unlocked seek est v r s of
              (st, r', s') \<Rightarrow>
                if st \<noteq> OK then s'\<lparr>pending_commits := (v, r') # ps\<rparr>
                else commit_pendings_loop seek est (major (version (last (versions s')))) ps s')
      else s\<lparr>pending_commits := (v, r) # ps\<rparr>)"

definition try_commit_pendings_unlocked ::
  "64 word \<Rightarrow> (64 word \<Rightarrow> 64 word \<Rightarrow> 64 word \<Rightarrow> 64 word) \<Rightarrow> TabletUpdates \<Rightarrow> TabletUpdates" where
  "try_commit_pendings_unlocked seek est s =
     (if length (pending_commits s) > 0
      then commit_pendings_loop seek est (major (version (last (versions s)))) (pending_commits s) s
      else s)"

text \<open>\<^verbatim>\<open>_check_for_apply\<close>: starts the apply task unless one runs or nothing is left
  to apply; a failed submission sets the error flag.\<close>

definition check_for_apply :: "TabletUpdates \<Rightarrow> TabletUpdates" where
  "check_for_apply s =
     (if apply_stopped s then s
      else if apply_running s \<or> apply_version_idx s + 1 = length (versions s) then s
      else
        let s1 = s\<lparr>apply_running := True\<rparr>
        in case submit_results s1 of
             [] \<Rightarrow> s1
           | st # rest \<Rightarrow>
               if st = OK then s1\<lparr>submit_results := rest\<rparr>
               else set_error (s1\<lparr>submit_results := rest\<rparr>))"

text \<open>\<^verbatim>\<open>_pending_commits.emplace(version, rowset)\<close>: inserts in key order unless the key
  is present; the flag is \<^verbatim>\<open>ret.second\<close>.\<close>

definition emplace :: "int \<Rightarrow> Rowset \<Rightarrow> (int \<times> Rowset) list \<Rightarrow> (int \<times> Rowset) list \<times> bool" where
  "emplace v r ps =
     (if v \<in> fst ` set ps then (ps, False) else (insort_key fst (v, r) ps, True))"

text \<open>\<^verbatim>\<open>rowset_commit\<close>. \<^verbatim>\<open>_versions.back()\<close> is read without a check: the log is
  never empty once the tablet is loaded, and the theorems assume so.\<close>

definition rowset_commit ::
  "64 word \<Rightarrow> (64 word \<Rightarrow> 64 word \<Rightarrow> 64 word \<Rightarrow> 64 word) \<Rightarrow> int \<Rightarrow> Rowset \<Rightarrow> TabletUpdates
     \<Rightarrow> Status \<times> TabletUpdates" where
  "rowset_commit seek est v r s =
     (if error s then (InternalError, s)
      else if v \<le> major (version (last (versions s)))
      then (OK, ignore_rowset_commit v r s)
      else if v > major (version (last (versions s))) + 1
      then
        (if length (pending_commits s) > 100 then (InternalError, s)
         else
           case emplace v r (pending_commits s) of
             (ps, inserted) \<Rightarrow>
               if \<not> inserted then (OK, ignore_rowset_commit v r (s\<lparr>pending_commits := ps\<rparr>))
               else
                 (case pending_rowset_commit v r (meta s) of
                    (st, kv') \<Rightarrow> (st, s\<lparr>pending_commits := ps, meta := kv'\<rparr>)))
      else
        (case rowset_commit_unlocked seek est v r s of
           (st, r', s') \<Rightarrow>
             if st = OK
             then (st, check_for_apply (try_commit_pendings_unlocked seek est s'))
             else (st, s')))"


section \<open>Properties of the version log\<close>




subsection \<open>A small tablet for the concrete checks\<close>

definition example_rowset :: "nat \<Rightarrow> Rowset" where
  "example_rowset n =
     \<lparr>rowset_id = n, rowset_num_segments = 1, rowset_num_rows = 100, data_disk_size = 1000,
      commit_version = None, rowset_seg_id = 0\<rparr>"

definition example_store :: KVStore where
  "example_store =
     \<lparr>rowset_metas = {7, 8, 9}, pending_rowsets = Map.empty, edit_logs = [], write_results = []\<rparr>"

text \<open>One version \<open>1\<close> holding no rowset, applied, and the commit of version \<open>3\<close> waiting.\<close>

definition example_tablet :: TabletUpdates where
  "example_tablet =
     \<lparr>error = False,
      versions = [\<lparr>version = \<lparr>major = 1, minor = 0\<rparr>, creation_time = 0, rowsets = [],
                   deltas = [], compaction = None\<rparr>],
      apply_version_idx = 0,
      pending_commits = [(3, example_rowset 7)],
      next_rowset_id = 0,
      next_log_id = 1,
      tablet_rowsets = Map.empty,
      rowset_stats = Map.empty,
      apply_stopped = False,
      apply_running = False,
      submit_results = [],
      clock = 0,
      meta = example_store\<rparr>"

subsection \<open>Further tablets for the concrete checks\<close>

text \<open>An estimate of the deleted bytes that is always zero.\<close>

definition est_zero :: "64 word \<Rightarrow> 64 word \<Rightarrow> 64 word \<Rightarrow> 64 word" where
  "est_zero b d n = 0"

text \<open>The example tablet after \<^verbatim>\<open>_set_error\<close>.\<close>

definition failed_tablet :: TabletUpdates where
  "failed_tablet = set_error example_tablet"

text \<open>The example tablet with 101 commits waiting, versions \<open>3\<close> to \<open>103\<close>.\<close>

definition crowded_pending :: "(int \<times> Rowset) list" where
  "crowded_pending = map (\<lambda>i. (int i + 3, example_rowset 7)) [0..<101]"

definition crowded_tablet :: TabletUpdates where
  "crowded_tablet = example_tablet\<lparr>pending_commits := crowded_pending\<rparr>"

subsection \<open>Statistics for the concrete checks\<close>




section \<open>Applying a rowset commit\<close>









text \<open>How one call can end: it returns, \<^verbatim>\<open>LOG(FATAL)\<close> aborts the process, or the C++
  has no defined behaviour (a null rowset is dereferenced, \<^verbatim>\<open>begin()\<close> is decremented).\<close>

datatype 'a outcome = Returned 'a | Fatal | Undefined











subsection \<open>An apply whose deletions are already deleted\<close>








section \<open>Choosing the inputs of a compaction\<close>

text \<open>
  \<^verbatim>\<open>CompactionEntry\<close>. \<^verbatim>\<open>score_per_row\<close> is a \<^verbatim>\<open>float\<close>, obtained as
  \<^verbatim>\<open>(float)((double)compaction_score / (num_rows - num_dels))\<close>: its type is a parameter
  \<open>'f\<close>, any linear order, and the conversion is the parameter \<open>per_row\<close> of the
  functions below, applied to the score and to the number of live rows.
\<close>

record 'f CompactionEntry =
  score_per_row :: 'f
  ce_rowsetid :: "32 word"
  ce_num_rows :: "64 word"
  ce_num_dels :: "64 word"
  ce_bytes :: "64 word"

definition compaction_result_bytes_threashold :: "64 word" where
  "compaction_result_bytes_threashold = 1000000000"

definition compaction_result_rows_threashold :: "64 word" where
  "compaction_result_rows_threashold = 10000000"

text \<open>
  The first loop of \<^verbatim>\<open>compaction\<close>: a rowset without statistics or with a score that
  is not positive is passed over; one with \<^verbatim>\<open>num_rows == num_dels\<close> goes to
  \<^verbatim>\<open>info->inputs\<close> at once; any other becomes a candidate.
\<close>

fun scan_rowsets ::
  "(64 word \<Rightarrow> 64 word \<Rightarrow> 'f) \<Rightarrow> (32 word \<rightharpoonup> RowsetStats) \<Rightarrow> 32 word list \<Rightarrow> 32 word list
     \<Rightarrow> 'f CompactionEntry list \<Rightarrow> 32 word list \<times> 'f CompactionEntry list" where
  "scan_rowsets per_row stats [] inps candidates = (inps, candidates)"
| "scan_rowsets per_row stats (r # rs) inps candidates =
     (case stats r of
        None \<Rightarrow> scan_rowsets per_row stats rs inps candidates
      | Some stat \<Rightarrow>
          if 0 <s compaction_score stat
          then
            (if num_rows stat = num_dels stat
             then scan_rowsets per_row stats rs (inps @ [r]) candidates
             else scan_rowsets per_row stats rs inps
                    (candidates @
                      [\<lparr>score_per_row = per_row (compaction_score stat) (num_rows stat - num_dels stat),
                        ce_rowsetid = r,
                        ce_num_rows = num_rows stat,
                        ce_num_dels = num_dels stat,
                        ce_bytes = byte_size stat\<rparr>]))
          else scan_rowsets per_row stats rs inps candidates)"

text \<open>
  The second loop, over the sorted candidates. All sums are \<^verbatim>\<open>size_t\<close>. The division
  by \<^verbatim>\<open>e.num_rows\<close> is undefined in C++ when it is zero: the result is \<open>None\<close> then.
\<close>

fun pick_candidates ::
  "'f CompactionEntry list \<Rightarrow> 32 word list \<Rightarrow> 64 word \<Rightarrow> 64 word \<Rightarrow> 32 word list option" where
  "pick_candidates [] inps total_rows_after_compaction total_bytes_after_compaction = Some inps"
| "pick_candidates (e # es) inps total_rows_after_compaction total_bytes_after_compaction =
     (if ce_num_rows e = 0 then None
      else
        let new_rows = total_rows_after_compaction + ce_num_rows e - ce_num_dels e;
            new_bytes = total_bytes_after_compaction
                          + ce_bytes e * (ce_num_rows e - ce_num_dels e) div ce_num_rows e
        in if length inps > 0 \<and>
              (new_rows > compaction_result_rows_threashold * 3 div 2 \<or>
               new_bytes > compaction_result_bytes_threashold * 3 div 2)
           then Some inps
           else if new_bytes > compaction_result_bytes_threashold \<or>
                   new_rows > compaction_result_rows_threashold
           then Some (inps @ [ce_rowsetid e])
           else pick_candidates es (inps @ [ce_rowsetid e]) new_rows new_bytes)"




text \<open>
  The inputs in the order in which \<^verbatim>\<open>compaction\<close> picks them, before the final
  \<^verbatim>\<open>std::sort(info->inputs...)\<close> by rowset id.
\<close>

definition picked_inputs ::
  "(64 word \<Rightarrow> 64 word \<Rightarrow> 'f) \<Rightarrow> ('f CompactionEntry list \<Rightarrow> 'f CompactionEntry list)
     \<Rightarrow> (32 word \<rightharpoonup> RowsetStats) \<Rightarrow> 32 word list \<Rightarrow> 32 word list option" where
  "picked_inputs per_row srt stats rws =
     (case scan_rowsets per_row stats rws [] [] of
        (inps, candidates) \<Rightarrow> pick_candidates (srt candidates) inps 0 0)"

text \<open>
  \<^verbatim>\<open>compaction\<close> up to the call of \<^verbatim>\<open>_do_compaction\<close>: the two guards, the
  rowsets of the applied version, the picked inputs sorted by id. The result on success
  is the \<^verbatim>\<open>CompactionInfo\<close> handed on (its output is not known yet). The flag
  \<^verbatim>\<open>_compaction_running\<close> is the parameter \<open>running\<close>; the jitter written to
  \<^verbatim>\<open>_last_compaction_time_ms\<close> and the log line are left out.
\<close>

definition compaction ::
  "(64 word \<Rightarrow> 64 word \<Rightarrow> 'f) \<Rightarrow> ('f CompactionEntry list \<Rightarrow> 'f CompactionEntry list)
     \<Rightarrow> bool \<Rightarrow> TabletUpdates \<Rightarrow> (Status + 32 word list) outcome" where
  "compaction per_row srt running s =
     (if error s then Returned (Inl InternalError)
      else if running then Returned (Inl InternalError)
      else if apply_version_idx s \<ge> length (versions s) then Undefined
      else
        (case picked_inputs per_row srt (rowset_stats s)
                (rowsets (versions s ! apply_version_idx s)) of
           None \<Rightarrow> Undefined
         | Some inps \<Rightarrow> Returned (Inr (sort inps))))"

text \<open>The estimates \<^verbatim>\<open>total_rows_after_compaction\<close> and
  \<^verbatim>\<open>total_bytes_after_compaction\<close> after picking the entries \<open>es\<close>, from \<open>r0\<close> and
  \<open>b0\<close>.\<close>

definition rows_after :: "64 word \<Rightarrow> 'f CompactionEntry list \<Rightarrow> 64 word" where
  "rows_after r0 es = foldl (\<lambda>a e. a + ce_num_rows e - ce_num_dels e) r0 es"

definition bytes_after :: "64 word \<Rightarrow> 'f CompactionEntry list \<Rightarrow> 64 word" where
  "bytes_after b0 es =
     foldl (\<lambda>a e. a + ce_bytes e * (ce_num_rows e - ce_num_dels e) div ce_num_rows e) b0 es"









subsection \<open>Tablets for the concrete checks of the selection\<close>










section \<open>Reading the rowsets of an applied version\<close>

text \<open>
  \<^verbatim>\<open>_wait_for_version\<close> sleeps on a condition variable while other threads change
  the tablet. Each return of \<^verbatim>\<open>wait_for\<close> is a wake-up: the waiter holds the lock
  again, sees the tablet as it is then, and reads the clock. The wake-ups of one call are
  a list of pairs (clock reading in ms, tablet); a call that has used them all without
  returning is still blocked, which is the result \<open>None\<close>. \<open>wait_start\<close> is the clock
  reading taken before the loop.
\<close>

definition applied_before :: "TabletUpdates \<Rightarrow> EditVersion \<Rightarrow> bool" where
  "applied_before t ver \<longleftrightarrow> EditVersion_less (version (versions t ! apply_version_idx t)) ver"

text \<open>The test that ends the wait with \<^verbatim>\<open>InternalError\<close>: the last version of the log
  is below the requested one, and so is the greatest pending version, if any.\<close>

definition beyond_all :: "EditVersion \<Rightarrow> TabletUpdates \<Rightarrow> bool" where
  "beyond_all ver t \<longleftrightarrow>
     EditVersion_less (version (last (versions t))) ver \<and>
     (pending_commits t = [] \<or> fst (last (pending_commits t)) < major ver)"

fun wait_loop ::
  "EditVersion \<Rightarrow> int \<Rightarrow> int \<Rightarrow> (int \<times> TabletUpdates) list \<Rightarrow> (Status \<times> TabletUpdates) option" where
  "wait_loop ver timeout_ms wait_start [] = None"
| "wait_loop ver timeout_ms wait_start ((now, t) # wakes) =
     (if error t then Some (OK, t)
      else if \<not> applied_before t ver then Some (OK, t)
      else if beyond_all ver t then Some (InternalError, t)
      else if now - wait_start > timeout_ms then Some (TimedOut, t)
      else wait_loop ver timeout_ms wait_start wakes)"







section \<open>The hash join table\<close>

text \<open>
  Modelled from the spec: \<^verbatim>\<open>join_hash_map.h\<close> and \<^verbatim>\<open>join_hash_map.tpp\<close>
  (\<^verbatim>\<open>JoinHashTableItems\<close>, \<^verbatim>\<open>HashTableProbeState\<close>, the build and probe functions) are
  not among the sources; only their test is. This section follows section 4.2 of the spec
  and, where the spec leaves a value open, what the test
  \<^verbatim>\<open>join_hash_map_test.cpp\<close> expects.
\<close>

datatype JoinMatchFlag = NORMAL | ALL_MATCH_ONE | MOST_MATCH_ONE

text \<open>
  Modelled from the spec: the three key encodings. A row of the key columns holds one
  value per column, \<open>None\<close> for null. A single fixed-width key is the value itself; a
  composite fixed-width key packs the columns bitwise into one wider integer, the first
  column lowest (the test compares with two \<^verbatim>\<open>memcpy\<close> of 4 bytes); a serialized key
  is the concatenation of the columns' bytes.
\<close>

datatype strategy = SingleFixed | CompositeFixed | Serialized

datatype join_key = Fixed "32 word" | Packed "64 word" | Slice "8 word list"

fun pack_columns :: "32 word list \<Rightarrow> 64 word" where
  "pack_columns [] = 0"
| "pack_columns (v # vs) = ucast v OR push_bit 32 (pack_columns vs)"

definition bytes_of :: "32 word \<Rightarrow> 8 word list" where
  "bytes_of v = map (\<lambda>i. ucast (drop_bit (8 * i) v)) [0..<4]"

fun encode :: "strategy \<Rightarrow> 32 word list \<Rightarrow> join_key" where
  "encode SingleFixed vs = Fixed (case vs of [] \<Rightarrow> 0 | v # rest \<Rightarrow> v)"
| "encode CompositeFixed vs = Packed (pack_columns vs)"
| "encode Serialized vs = Slice (concat (map bytes_of vs))"

text \<open>Modelled from the spec: a build or probe key is null when one of its columns is;
  the data columns hold the default value \<open>0\<close> in a null row.\<close>

definition is_null_row :: "32 word option list \<Rightarrow> bool" where
  "is_null_row r \<longleftrightarrow> None \<in> set r"

definition row_key :: "strategy \<Rightarrow> 32 word option list \<Rightarrow> join_key" where
  "row_key st r = encode st (map (\<lambda>v. case v of None \<Rightarrow> 0 | Some x \<Rightarrow> x) r)"

text \<open>
  Modelled from the spec: \<^verbatim>\<open>JoinHashTableItems\<close>. \<open>first\<close> holds the head of each
  bucket's chain and \<open>ht_next\<close> (the member \<^verbatim>\<open>next\<close>) the continuation of each build
  row; \<open>0\<close> ends a chain, row \<open>0\<close> being the reserved sentinel. \<open>build_data\<close> holds
  the keys of the build rows behind the sentinel.
\<close>

record JoinHashTableItems =
  bucket_size :: nat
  row_count :: nat
  first :: "nat list"
  ht_next :: "nat list"
  build_data :: "join_key list"

text \<open>Modelled from the spec: the bucket count is the smallest power of two that is at
  least twice the row count.\<close>

function least_pow2 :: "nat \<Rightarrow> nat" where
  "least_pow2 m = (if m \<le> 1 then 1 else 2 * least_pow2 ((m + 1) div 2))"
  by pat_completeness auto
termination
  by (relation "measure id") auto

declare least_pow2.simps [simp del]

definition calc_bucket_size :: "nat \<Rightarrow> nat" where
  "calc_bucket_size n = least_pow2 (2 * n)"

text \<open>
  Modelled from the spec: \<^verbatim>\<open>construct_hash_table\<close>. For each build row \<open>i\<close>, counted
  from 1, whose key is not null: \<open>next[i] = first[bucket]; first[bucket] = i\<close>, the bucket
  being the hash of the key masked to the bucket count. The hash function is the parameter
  \<open>hash\<close>. A row with a null key is not inserted.
\<close>

definition insert_row ::
  "(join_key \<Rightarrow> nat) \<Rightarrow> strategy \<Rightarrow> 32 word option list list \<Rightarrow> JoinHashTableItems \<Rightarrow> nat
     \<Rightarrow> JoinHashTableItems" where
  "insert_row hash st rows t i =
     (if is_null_row (rows ! (i - 1)) then t
      else
        let bucket = hash (build_data t ! i) mod bucket_size t
        in t\<lparr>ht_next := (ht_next t)[i := first t ! bucket],
              first := (first t)[bucket := i]\<rparr>)"

definition prepare_table ::
  "strategy \<Rightarrow> 32 word option list list \<Rightarrow> JoinHashTableItems" where
  "prepare_table st rows =
     \<lparr>bucket_size = calc_bucket_size (length rows),
      row_count = length rows,
      first = replicate (calc_bucket_size (length rows)) 0,
      ht_next = replicate (length rows + 1) 0,
      build_data = row_key st [] # map (row_key st) rows\<rparr>"

definition construct_hash_table ::
  "(join_key \<Rightarrow> nat) \<Rightarrow> strategy \<Rightarrow> 32 word option list list \<Rightarrow> JoinHashTableItems" where
  "construct_hash_table hash st rows =
     foldl (insert_row hash st rows) (prepare_table st rows) [1..<length rows + 1]"

text \<open>
  Modelled from the spec: \<^verbatim>\<open>HashTableProbeState\<close>. \<open>ps_next\<close> (the member
  \<^verbatim>\<open>next\<close>) maps each probe row to the build row at which its walk starts;
  \<open>probe_index\<close> and \<open>build_index\<close> are the output arrays up to \<open>probe_count\<close> (the
  member \<^verbatim>\<open>count\<close>).
\<close>

record HashTableProbeState =
  probe_row_count :: nat
  cur_probe_index :: nat
  cur_row_match_count :: nat
  ps_next :: "nat list"
  probe_index :: "nat list"
  build_index :: "nat list"
  probe_count :: nat
  has_remain :: bool
  match_flag :: JoinMatchFlag

text \<open>Modelled from the spec: \<^verbatim>\<open>lookup_init\<close> looks up the bucket of each probe key; a
  null probe key matches nothing.\<close>

definition lookup_init ::
  "(join_key \<Rightarrow> nat) \<Rightarrow> strategy \<Rightarrow> JoinHashTableItems \<Rightarrow> 32 word option list list
     \<Rightarrow> HashTableProbeState" where
  "lookup_init hash st t prows =
     \<lparr>probe_row_count = length prows,
      cur_probe_index = 0,
      cur_row_match_count = 0,
      ps_next = map (\<lambda>r. if is_null_row r then 0
                          else first t ! (hash (row_key st r) mod bucket_size t)) prows,
      probe_index = [],
      build_index = [],
      probe_count = 0,
      has_remain = False,
      match_flag = NORMAL\<rparr>"

text \<open>
  Modelled from the spec: the walk of one probe row's chain. On each hit the pair is
  emitted; when the batch holds \<open>chunk\<close> pairs already, the walk stops at that build
  row. \<open>c\<close> is \<^verbatim>\<open>cur_row_match_count\<close>, counted on the first probe of a batch only; at
  a stop it includes the hit that did not fit, as the test
  \<^verbatim>\<open>ProbeFromHtFirstOneToMany\<close> expects (\<open>1\<close> after 2048 full rows). The walk follows
  \<open>ht_next\<close> for at most \<open>fuel\<close> steps; running out of steps, or reading outside the
  arrays, has no result.
\<close>

datatype chain_result =
    ChainDone "(nat \<times> nat) list" nat
  | ChunkFull nat "(nat \<times> nat) list" nat
  | NoResult

fun probe_chain ::
  "nat \<Rightarrow> nat \<Rightarrow> bool \<Rightarrow> nat list \<Rightarrow> join_key list \<Rightarrow> join_key \<Rightarrow> nat \<Rightarrow> nat
     \<Rightarrow> (nat \<times> nat) list \<Rightarrow> nat \<Rightarrow> chain_result" where
  "probe_chain 0 chunk first_probe nxt bd key i b out c =
     (if b = 0 then ChainDone out c else NoResult)"
| "probe_chain (Suc fuel) chunk first_probe nxt bd key i b out c =
     (if b = 0 then ChainDone out c
      else if b \<ge> length nxt \<or> b \<ge> length bd then NoResult
      else if bd ! b = key
      then
        (let c' = (if first_probe then c + 1 else c)
         in if length out + 1 > chunk then ChunkFull b out c'
            else probe_chain fuel chunk first_probe nxt bd key i (nxt ! b) (out @ [(i, b)]) c')
      else probe_chain fuel chunk first_probe nxt bd key i (nxt ! b) out c)"

text \<open>Modelled from the spec: the end of a probe that visited every row:
  \<^verbatim>\<open>has_remain = false\<close>, both cursors zero, and on the first probe the classification
  of the batch.\<close>

definition probe_over ::
  "bool \<Rightarrow> bool \<Rightarrow> (nat \<times> nat) list \<Rightarrow> HashTableProbeState \<Rightarrow> HashTableProbeState" where
  "probe_over first_probe one_match out ps =
     ps\<lparr>match_flag :=
          (if first_probe \<and> one_match
           then (if length out = probe_row_count ps then ALL_MATCH_ONE
                 else if length out * 2 > probe_row_count ps then MOST_MATCH_ONE
                 else NORMAL)
           else NORMAL),
        has_remain := False,
        cur_probe_index := 0,
        probe_count := length out,
        cur_row_match_count := 0,
        probe_index := map fst out,
        build_index := map snd out\<rparr>"

text \<open>Modelled from the spec: the loop over the probe rows \<open>rows\<close>; a full batch
  records where to resume.\<close>

fun probe_rows ::
  "nat \<Rightarrow> bool \<Rightarrow> JoinHashTableItems \<Rightarrow> join_key list \<Rightarrow> nat list \<Rightarrow> HashTableProbeState
     \<Rightarrow> (nat \<times> nat) list \<Rightarrow> bool \<Rightarrow> HashTableProbeState option" where
  "probe_rows chunk first_probe t probe_data [] ps out one_match =
     Some (probe_over first_probe one_match out ps)"
| "probe_rows chunk first_probe t probe_data (i # rows) ps out one_match =
     (if i \<ge> length (ps_next ps) \<or> i \<ge> length probe_data then None
      else
        (case probe_chain (length (ht_next t)) chunk first_probe (ht_next t) (build_data t)
                (probe_data ! i) i (ps_next ps ! i) out (cur_row_match_count ps) of
           NoResult \<Rightarrow> None
         | ChunkFull b out' c \<Rightarrow>
             Some (ps\<lparr>ps_next := (ps_next ps)[i := b],
                      cur_probe_index := i,
                      has_remain := True,
                      probe_count := chunk,
                      cur_row_match_count := c,
                      probe_index := map fst out',
                      build_index := map snd out'\<rparr>)
         | ChainDone out' c \<Rightarrow>
             probe_rows chunk first_probe t probe_data rows
               (if first_probe then ps\<lparr>cur_row_match_count := 0\<rparr> else ps) out'
               (if first_probe then one_match \<and> \<not> c > 1 else one_match)))"

text \<open>Modelled from the spec: \<^verbatim>\<open>_probe_from_ht<first_probe>\<close>, from
  \<^verbatim>\<open>cur_probe_index\<close> on; \<open>chunk\<close> is \<^verbatim>\<open>config::vector_chunk_size\<close>.\<close>

definition probe_from_ht ::
  "nat \<Rightarrow> bool \<Rightarrow> JoinHashTableItems \<Rightarrow> join_key list \<Rightarrow> HashTableProbeState
     \<Rightarrow> HashTableProbeState option" where
  "probe_from_ht chunk first_probe t probe_data ps =
     probe_rows chunk first_probe t probe_data [cur_probe_index ps..<probe_row_count ps]
       (ps\<lparr>match_flag := NORMAL\<rparr>) [] True"

text \<open>Modelled from the spec: the caller probes again while \<^verbatim>\<open>has_remain\<close> is set. The
  result lists the probe states after each call, for at most \<open>fuel\<close> calls.\<close>

fun probe_until_drained ::
  "nat \<Rightarrow> nat \<Rightarrow> bool \<Rightarrow> JoinHashTableItems \<Rightarrow> join_key list \<Rightarrow> HashTableProbeState
     \<Rightarrow> HashTableProbeState list option" where
  "probe_until_drained 0 chunk first_probe t probe_data ps = None"
| "probe_until_drained (Suc fuel) chunk first_probe t probe_data ps =
     (case probe_from_ht chunk first_probe t probe_data ps of
        None \<Rightarrow> None
      | Some ps' \<Rightarrow>
          if has_remain ps'
          then (case probe_until_drained fuel chunk False t probe_data ps' of
                  None \<Rightarrow> None
                | Some rest \<Rightarrow> Some (ps' # rest))
          else Some [ps'])"

definition emitted :: "HashTableProbeState \<Rightarrow> (nat \<times> nat) list" where
  "emitted ps = zip (probe_index ps) (build_index ps)"

text \<open>The rows of the chain that starts at build row \<open>b\<close>: \<open>b\<close>, \<open>next[b]\<close>, and so
  on to the sentinel, in a table whose links point to smaller rows.\<close>

function chain_rows :: "nat list \<Rightarrow> nat \<Rightarrow> nat list" where
  "chain_rows nxt b =
     (if b = 0 \<or> b \<ge> length nxt \<or> nxt ! b \<ge> b then [] else b # chain_rows nxt (nxt ! b))"
  by pat_completeness auto
termination
  by (relation "measure snd") auto

declare chain_rows.simps [simp del]

subsection \<open>What a table and a probe state have to satisfy\<close>

text \<open>A table whose links point to smaller rows, as head insertion builds it: every
  chain ends at the sentinel.\<close>

definition wf_links :: "nat list \<Rightarrow> bool" where
  "wf_links nxt \<longleftrightarrow> (\<forall>b. 0 < b \<and> b < length nxt \<longrightarrow> nxt ! b < b)"

text \<open>The pairs that one probe row has to emit: the rows of its chain, from where its walk
  starts, whose key equals the probe key.\<close>

definition row_matches ::
  "JoinHashTableItems \<Rightarrow> join_key list \<Rightarrow> nat list \<Rightarrow> nat \<Rightarrow> (nat \<times> nat) list" where
  "row_matches t pd nxts i =
     map (Pair i) (filter (\<lambda>r. build_data t ! r = pd ! i) (chain_rows (ht_next t) (nxts ! i)))"

text \<open>All the pairs that the probe rows \<open>rows\<close> have to emit, in the order of the rows.\<close>

definition pending_matches ::
  "JoinHashTableItems \<Rightarrow> join_key list \<Rightarrow> nat list \<Rightarrow> nat list \<Rightarrow> (nat \<times> nat) list" where
  "pending_matches t pd nxts rows = concat (map (row_matches t pd nxts) rows)"

text \<open>Probe rows that can be walked: distinct, inside the arrays, starting inside the table.\<close>

definition rows_ok :: "JoinHashTableItems \<Rightarrow> join_key list \<Rightarrow> nat list \<Rightarrow> nat list \<Rightarrow> bool" where
  "rows_ok t pd nxts rows \<longleftrightarrow>
     distinct rows \<and>
     (\<forall>i \<in> set rows. i < length nxts \<and> i < length pd \<and> nxts ! i < length (ht_next t))"

text \<open>A probe state after a stop at probe row \<open>i\<close> and build row \<open>b\<close> with the batch
  \<open>out\<close>.\<close>

definition stopped_at ::
  "HashTableProbeState \<Rightarrow> nat \<Rightarrow> nat \<Rightarrow> nat \<Rightarrow> (nat \<times> nat) list \<Rightarrow> HashTableProbeState \<Rightarrow> bool" where
  "stopped_at ps chunk i b out ps' \<longleftrightarrow>
     emitted ps' = out \<and> has_remain ps' \<and> probe_count ps' = chunk \<and>
     probe_row_count ps' = probe_row_count ps \<and> cur_probe_index ps' = i \<and>
     ps_next ps' = (ps_next ps)[i := b] \<and> match_flag ps' = match_flag ps"

text \<open>A probe state that fits the table and the probe keys.\<close>

definition probe_ok :: "JoinHashTableItems \<Rightarrow> join_key list \<Rightarrow> HashTableProbeState \<Rightarrow> bool" where
  "probe_ok t pd ps \<longleftrightarrow>
     cur_probe_index ps \<le> probe_row_count ps \<and>
     probe_row_count ps \<le> length (ps_next ps) \<and>
     probe_row_count ps \<le> length pd \<and>
     (\<forall>i < probe_row_count ps. ps_next ps ! i < length (ht_next t))"

text \<open>The pairs that are still to be emitted for the batch, from \<^verbatim>\<open>cur_probe_index\<close> on.\<close>

definition all_matches ::
  "JoinHashTableItems \<Rightarrow> join_key list \<Rightarrow> HashTableProbeState \<Rightarrow> (nat \<times> nat) list" where
  "all_matches t pd ps =
     pending_matches t pd (ps_next ps) [cur_probe_index ps..<probe_row_count ps]"

text \<open>Each call after a stop starts with the pair at the cursor the stop recorded.\<close>

fun resumes :: "HashTableProbeState list \<Rightarrow> bool" where
  "resumes (s # s' # rest) =
     (hd (emitted s') = (cur_probe_index s, ps_next s ! cur_probe_index s) \<and> resumes (s' # rest))"
| "resumes xs = True"

text \<open>What the calls for one batch do with the pairs \<open>M\<close>: together they emit \<open>M\<close>;
  every call but the last sets \<^verbatim>\<open>has_remain\<close> and fills the batch; each call resumes at
  the recorded cursor; the last call clears \<^verbatim>\<open>has_remain\<close> and both cursors.\<close>

definition drained ::
  "nat \<Rightarrow> (nat \<times> nat) list \<Rightarrow> HashTableProbeState list \<Rightarrow> bool" where
  "drained chunk M states \<longleftrightarrow>
     states \<noteq> [] \<and>
     concat (map emitted states) = M \<and>
     emitted (hd states) = take chunk M \<and>
     (\<forall>s \<in> set (butlast states).
        has_remain s \<and> probe_count s = chunk \<and> length (emitted s) = chunk) \<and>
     resumes states \<and>
     \<not> has_remain (last states) \<and>
     cur_probe_index (last states) = 0 \<and>
     cur_row_match_count (last states) = 0 \<and>
     probe_count (last states) = length (emitted (last states)) \<and>
     (chunk < length M \<longrightarrow> 1 < length states) \<and>
     (length M \<le> chunk \<longrightarrow> length states = 1)"

text \<open>Build row \<open>i\<close> has a key that is not null and falls into bucket \<open>b\<close>.\<close>

definition in_bucket ::
  "(join_key \<Rightarrow> nat) \<Rightarrow> 32 word option list list \<Rightarrow> JoinHashTableItems \<Rightarrow> nat \<Rightarrow> nat \<Rightarrow> bool" where
  "in_bucket hash rows t b i \<longleftrightarrow>
     \<not> is_null_row (rows ! (i - 1)) \<and> hash (build_data t ! i) mod bucket_size t = b"

text \<open>The table after the first \<open>k\<close> build rows: the chain of each bucket holds the rows
  of that bucket with a key that is not null, the latest first.\<close>

definition built ::
  "(join_key \<Rightarrow> nat) \<Rightarrow> strategy \<Rightarrow> 32 word option list list \<Rightarrow> nat \<Rightarrow> JoinHashTableItems \<Rightarrow> bool" where
  "built hash st rows k t \<longleftrightarrow>
     bucket_size t = calc_bucket_size (length rows) \<and>
     length (first t) = bucket_size t \<and>
     length (ht_next t) = length rows + 1 \<and>
     build_data t = row_key st [] # map (row_key st) rows \<and>
     wf_links (ht_next t) \<and>
     (\<forall>b < bucket_size t. first t ! b \<le> k) \<and>
     (\<forall>b < bucket_size t.
        chain_rows (ht_next t) (first t ! b) = rev (filter (in_bucket hash rows t b) [1..<k + 1]))"

text \<open>The walk of \<^verbatim>\<open>check_build_index\<close> in the test:
  \<^verbatim>\<open>while (index != 0) { ...; index = next[index]; }\<close>, for at most \<open>fuel\<close> steps.\<close>

fun walk_chain :: "nat \<Rightarrow> nat list \<Rightarrow> nat \<Rightarrow> nat list option" where
  "walk_chain 0 nxt index = (if index = 0 then Some [] else None)"
| "walk_chain (Suc fuel) nxt index =
     (if index = 0 then Some []
      else if index \<ge> length nxt then None
      else (case walk_chain fuel nxt (nxt ! index) of
              None \<Rightarrow> None
            | Some rs \<Rightarrow> Some (index # rs)))"

text \<open>Build or probe rows none of which has a null key.\<close>

definition no_nulls :: "32 word option list list \<Rightarrow> bool" where
  "no_nulls rows \<longleftrightarrow> (\<forall>r \<in> set rows. \<not> is_null_row r)"

subsection \<open>Tables and batches for the concrete checks of the join\<close>

text \<open>\<^verbatim>\<open>config::vector_chunk_size\<close>, as \<^verbatim>\<open>config.h\<close> sets it and the test's
  \<^verbatim>\<open>SetUp\<close> does.\<close>

definition vector_chunk_size :: nat where
  "vector_chunk_size = 4096"

text \<open>A hash function for the checks: the key's value, or the sum of its bytes.\<close>

fun key_hash :: "join_key \<Rightarrow> nat" where
  "key_hash (Fixed w) = unat w"
| "key_hash (Packed w) = unat w"
| "key_hash (Slice bs) = sum_list (map unat bs)"

text \<open>One key column holding \<open>0\<close> to \<open>n - 1\<close>, as \<^verbatim>\<open>create_int32_column(n, 0)\<close>
  builds it.\<close>

definition key_rows :: "nat \<Rightarrow> 32 word option list list" where
  "key_rows n = map (\<lambda>k. [Some (word_of_nat k)]) [0..<n]"

text \<open>Two key columns holding \<open>k\<close> and \<open>100 + k\<close>, null in the odd rows, as
  \<^verbatim>\<open>create_int32_nullable_column\<close> builds them for the nullable tests.\<close>

definition nullable_rows :: "nat \<Rightarrow> 32 word option list list" where
  "nullable_rows n =
     map (\<lambda>k. if even k then [Some (word_of_nat k), Some (word_of_nat (100 + k))]
               else [None, None]) [0..<n]"






section \<open>The version log under \<^verbatim>\<open>rowset_commit\<close>\<close>





lemma ignore_fields [simp]:
  "versions (ignore_rowset_commit v r s) = versions s"
  "pending_commits (ignore_rowset_commit v r s) = pending_commits s"
  "error (ignore_rowset_commit v r s) = error s"
  by (simp_all add: ignore_rowset_commit_def)

lemma check_for_apply_fields [simp]:
  "versions (check_for_apply s) = versions s"
  "pending_commits (check_for_apply s) = pending_commits s"
  by (simp_all add: check_for_apply_def set_error_def Let_def split: list.splits)



lemma ignore_results [simp]:
  "write_results (meta s) = [] \<Longrightarrow> write_results (meta (ignore_rowset_commit v r s)) = []"
  by (simp add: ignore_rowset_commit_def RowsetMetaManager_remove_def next_result_def)













lemmas example_defs = example_tablet_def example_rowset_def example_store_def est_zero_def




section \<open>Duplicate commits\<close>

lemma remove_store_fields:
  "pending_rowsets (snd (RowsetMetaManager_remove rid kv)) = pending_rowsets kv"
  "edit_logs (snd (RowsetMetaManager_remove rid kv)) = edit_logs kv"
  "rowset_metas kv - {rid} \<subseteq> rowset_metas (snd (RowsetMetaManager_remove rid kv))"
  "rowset_metas (snd (RowsetMetaManager_remove rid kv)) \<subseteq> rowset_metas kv"
  by (auto simp: RowsetMetaManager_remove_def next_result_def split: list.splits)

lemma remove_store_ok:
  "write_results kv = [] \<Longrightarrow>
     rowset_metas (snd (RowsetMetaManager_remove rid kv)) = rowset_metas kv - {rid}"
  by (simp add: RowsetMetaManager_remove_def next_result_def)

lemma ignore_only_meta:
  "ignore_rowset_commit v r s = s\<lparr>meta := snd (RowsetMetaManager_remove (rowset_id r) (meta s))\<rparr>"
  by (simp add: ignore_rowset_commit_def)

lemma rowset_commit_in_error: "error s \<Longrightarrow> rowset_commit seek est v r s = (InternalError, s)"
  by (simp add: rowset_commit_def)

lemma rowset_commit_too_many_pending:
  "\<not> error s \<Longrightarrow> major (version (last (versions s))) + 1 < v \<Longrightarrow>
   100 < length (pending_commits s) \<Longrightarrow> rowset_commit seek est v r s = (InternalError, s)"
  by (simp add: rowset_commit_def)

text \<open>
  Claim C3, as stated, fails on a tablet in the error state: the call is refused with
  \<^verbatim>\<open>InternalError\<close> before the version is looked at, although version \<open>1\<close> is
  committed.
\<close>

theorem duplicate_commit_in_error_state_refused:
  "1 \<le> major (version (last (versions failed_tablet))) \<and>
   fst (rowset_commit 0 est_zero 1 (example_rowset 9) failed_tablet) = InternalError \<and>
   fst (rowset_commit 0 est_zero 1 (example_rowset 9) failed_tablet) \<noteq> OK"
  by (simp add: failed_tablet_def set_error_def example_defs rowset_commit_def)

text \<open>
  Claim C3, amended. On a tablet that is not in the error state, a call whose version is
  at most the highest committed version returns \<^verbatim>\<open>OK\<close> and changes no member of
  the tablet: the log, \<^verbatim>\<open>num_rowsets()\<close> and \<^verbatim>\<open>data_size()\<close> are as before. The
  only effect is on the metadata store, where the rowset's metadata is removed (when the
  store carries the removal out) and nothing else changes. In the error state the call
  returns \<^verbatim>\<open>InternalError\<close> and changes nothing.
\<close>

theorem duplicate_commit_is_noop:
  assumes "versions s \<noteq> []" "v \<le> major (version (last (versions s)))"
  shows "(\<not> error s \<longrightarrow>
            fst (rowset_commit seek est v r s) = OK \<and>
            snd (rowset_commit seek est v r s)
              = s\<lparr>meta := snd (RowsetMetaManager_remove (rowset_id r) (meta s))\<rparr> \<and>
            versions (snd (rowset_commit seek est v r s)) = versions s \<and>
            num_rowsets (snd (rowset_commit seek est v r s)) = num_rowsets s \<and>
            data_size (snd (rowset_commit seek est v r s)) = data_size s \<and>
            pending_rowsets (meta (snd (rowset_commit seek est v r s))) = pending_rowsets (meta s) \<and>
            edit_logs (meta (snd (rowset_commit seek est v r s))) = edit_logs (meta s) \<and>
            rowset_metas (meta s) - {rowset_id r}
              \<subseteq> rowset_metas (meta (snd (rowset_commit seek est v r s))) \<and>
            rowset_metas (meta (snd (rowset_commit seek est v r s))) \<subseteq> rowset_metas (meta s) \<and>
            (write_results (meta s) = [] \<longrightarrow>
               rowset_metas (meta (snd (rowset_commit seek est v r s)))
                 = rowset_metas (meta s) - {rowset_id r})) \<and>
         (error s \<longrightarrow> rowset_commit seek est v r s = (InternalError, s))"
proof -
  have e: "error s \<longrightarrow> rowset_commit seek est v r s = (InternalError, s)"
    by (simp add: rowset_commit_in_error)
  have n: "rowset_commit seek est v r s
             = (OK, s\<lparr>meta := snd (RowsetMetaManager_remove (rowset_id r) (meta s))\<rparr>)"
    if "\<not> error s"
    using that assms by (simp add: rowset_commit_def ignore_only_meta)
  show ?thesis
  proof (cases "error s")
    case True
    with e show ?thesis by simp
  next
    case False
    from n[OF False] remove_store_fields[where kv="meta s" and rid="rowset_id r"]
      remove_store_ok[where kv="meta s" and rid="rowset_id r"] False
    show ?thesis by (simp add: num_rowsets_def data_size_def)
  qed
qed

theorem duplicate_commit_is_noop_witness:
  "versions example_tablet \<noteq> [] \<and> 1 \<le> major (version (last (versions example_tablet))) \<and>
   \<not> error example_tablet \<and> write_results (meta example_tablet) = [] \<and>
   error failed_tablet \<and>
   fst (rowset_commit 0 est_zero 1 (example_rowset 9) example_tablet) = OK \<and>
   versions (snd (rowset_commit 0 est_zero 1 (example_rowset 9) example_tablet))
     = versions example_tablet \<and>
   rowset_metas (meta (snd (rowset_commit 0 est_zero 1 (example_rowset 9) example_tablet)))
     = {7, 8} \<and>
   rowset_commit 0 est_zero 1 (example_rowset 9) failed_tablet = (InternalError, failed_tablet)"
proof -
  have h: "versions example_tablet \<noteq> []" "1 \<le> major (version (last (versions example_tablet)))"
    "\<not> error example_tablet" "write_results (meta example_tablet) = []"
    by (simp_all add: example_defs)
  have f: "versions failed_tablet \<noteq> []" "1 \<le> major (version (last (versions failed_tablet)))"
    "error failed_tablet"
    by (simp_all add: failed_tablet_def set_error_def example_defs)
  have m: "rowset_metas (meta example_tablet) - {rowset_id (example_rowset 9)} = {7, 8}"
    by (auto simp: example_defs)
  from duplicate_commit_is_noop[OF h(1,2), of 0 est_zero "example_rowset 9"] h(3,4)
  have a: "fst (rowset_commit 0 est_zero 1 (example_rowset 9) example_tablet) = OK"
    and b: "versions (snd (rowset_commit 0 est_zero 1 (example_rowset 9) example_tablet))
              = versions example_tablet"
    and c: "rowset_metas (meta (snd (rowset_commit 0 est_zero 1 (example_rowset 9) example_tablet)))
              = rowset_metas (meta example_tablet) - {rowset_id (example_rowset 9)}"
    by blast+
  from duplicate_commit_is_noop[OF f(1,2), of 0 est_zero "example_rowset 9"] f(3)
  have d: "rowset_commit 0 est_zero 1 (example_rowset 9) failed_tablet = (InternalError, failed_tablet)"
    by blast
  from h f a b c d m show ?thesis by simp
qed

section \<open>Out-of-order commits of a version that is already pending\<close>

lemma crowded_length: "length crowded_pending = 101"
  by (simp add: crowded_pending_def)

lemma crowded_has_3: "3 \<in> fst ` set crowded_pending"
proof -
  have "(3, example_rowset 7) = (\<lambda>i. (int i + 3, example_rowset 7)) 0" by simp
  moreover have "(0::nat) \<in> set [0..<101]" by simp
  ultimately have "(3, example_rowset 7) \<in> set crowded_pending"
    unfolding crowded_pending_def set_map by (rule image_eqI)
  then show ?thesis by force
qed

text \<open>
  Claim C10, as stated, fails at the two guards that come before the lookup: with 101
  commits pending, and in the error state, the call for the pending version \<open>3\<close> returns
  \<^verbatim>\<open>InternalError\<close>, not success.
\<close>

theorem pending_duplicate_refused_when_crowded:
  "major (version (last (versions crowded_tablet))) + 1 < 3 \<and>
   3 \<in> fst ` set (pending_commits crowded_tablet) \<and>
   \<not> error crowded_tablet \<and>
   fst (rowset_commit 0 est_zero 3 (example_rowset 9) crowded_tablet) = InternalError \<and>
   major (version (last (versions failed_tablet))) + 1 < 3 \<and>
   3 \<in> fst ` set (pending_commits failed_tablet) \<and>
   fst (rowset_commit 0 est_zero 3 (example_rowset 9) failed_tablet) = InternalError"
proof -
  have a: "major (version (last (versions crowded_tablet))) + 1 < 3" "\<not> error crowded_tablet"
    by (simp_all add: crowded_tablet_def example_defs)
  have b: "3 \<in> fst ` set (pending_commits crowded_tablet)"
    using crowded_has_3 by (simp add: crowded_tablet_def)
  have c: "100 < length (pending_commits crowded_tablet)"
    by (simp add: crowded_tablet_def crowded_length)
  have d: "major (version (last (versions failed_tablet))) + 1 < 3"
    "3 \<in> fst ` set (pending_commits failed_tablet)" "error failed_tablet"
    by (simp_all add: failed_tablet_def set_error_def example_defs)
  from a b d rowset_commit_too_many_pending[OF a(2) a(1) c, of 0 est_zero "example_rowset 9"]
    rowset_commit_in_error[OF d(3), of 0 est_zero 3 "example_rowset 9"]
  show ?thesis by simp
qed

text \<open>
  Claim C10, amended. On a tablet that is not in the error state and holds at most 100
  pending commits, an out-of-order call (version above the highest committed version plus
  one) whose version is already pending returns \<^verbatim>\<open>OK\<close> and changes no member of the
  tablet: \<^verbatim>\<open>_pending_commits\<close> and the log are as before and the rowset is not
  buffered. In the metadata store no pending-rowset entry and no log entry is written; the
  only change is the removal of the new rowset's metadata (when the store carries it out).
  In the error state, or with more than 100 commits pending, the call returns
  \<^verbatim>\<open>InternalError\<close> and changes nothing.
\<close>

theorem pending_duplicate_is_ignored:
  assumes "versions s \<noteq> []" "major (version (last (versions s))) + 1 < v"
    "v \<in> fst ` set (pending_commits s)"
  shows "(\<not> error s \<and> length (pending_commits s) \<le> 100 \<longrightarrow>
            fst (rowset_commit seek est v r s) = OK \<and>
            snd (rowset_commit seek est v r s)
              = s\<lparr>meta := snd (RowsetMetaManager_remove (rowset_id r) (meta s))\<rparr> \<and>
            pending_commits (snd (rowset_commit seek est v r s)) = pending_commits s \<and>
            versions (snd (rowset_commit seek est v r s)) = versions s \<and>
            pending_rowsets (meta (snd (rowset_commit seek est v r s))) = pending_rowsets (meta s) \<and>
            edit_logs (meta (snd (rowset_commit seek est v r s))) = edit_logs (meta s) \<and>
            rowset_metas (meta s) - {rowset_id r}
              \<subseteq> rowset_metas (meta (snd (rowset_commit seek est v r s))) \<and>
            rowset_metas (meta (snd (rowset_commit seek est v r s))) \<subseteq> rowset_metas (meta s) \<and>
            (write_results (meta s) = [] \<longrightarrow>
               rowset_metas (meta (snd (rowset_commit seek est v r s)))
                 = rowset_metas (meta s) - {rowset_id r})) \<and>
         (error s \<or> 100 < length (pending_commits s) \<longrightarrow>
            rowset_commit seek est v r s = (InternalError, s))"
proof -
  have e: "rowset_commit seek est v r s = (InternalError, s)"
    if "error s \<or> 100 < length (pending_commits s)"
    using that assms(2) rowset_commit_in_error rowset_commit_too_many_pending
    by (cases "error s") auto
  have n: "rowset_commit seek est v r s
             = (OK, s\<lparr>meta := snd (RowsetMetaManager_remove (rowset_id r) (meta s))\<rparr>)"
    if "\<not> error s" "length (pending_commits s) \<le> 100"
    using that assms by (simp add: rowset_commit_def emplace_def ignore_only_meta)
  show ?thesis
  proof (cases "\<not> error s \<and> length (pending_commits s) \<le> 100")
    case True
    from n[of] True remove_store_fields[where kv="meta s" and rid="rowset_id r"]
      remove_store_ok[where kv="meta s" and rid="rowset_id r"]
    show ?thesis by simp
  next
    case False
    then have "error s \<or> 100 < length (pending_commits s)" by auto
    from e[OF this] this show ?thesis by auto
  qed
qed

theorem pending_duplicate_is_ignored_witness:
  "versions example_tablet \<noteq> [] \<and> major (version (last (versions example_tablet))) + 1 < 3 \<and>
   3 \<in> fst ` set (pending_commits example_tablet) \<and>
   \<not> error example_tablet \<and> length (pending_commits example_tablet) \<le> 100 \<and>
   write_results (meta example_tablet) = [] \<and>
   100 < length (pending_commits crowded_tablet) \<and>
   fst (rowset_commit 0 est_zero 3 (example_rowset 9) example_tablet) = OK \<and>
   pending_commits (snd (rowset_commit 0 est_zero 3 (example_rowset 9) example_tablet))
     = [(3, example_rowset 7)] \<and>
   rowset_metas (meta (snd (rowset_commit 0 est_zero 3 (example_rowset 9) example_tablet)))
     = {7, 8} \<and>
   rowset_commit 0 est_zero 3 (example_rowset 9) crowded_tablet = (InternalError, crowded_tablet)"
proof -
  have h: "versions example_tablet \<noteq> []" "major (version (last (versions example_tablet))) + 1 < 3"
    "3 \<in> fst ` set (pending_commits example_tablet)"
    "\<not> error example_tablet" "length (pending_commits example_tablet) \<le> 100"
    "write_results (meta example_tablet) = []"
    "pending_commits example_tablet = [(3, example_rowset 7)]"
    by (simp_all add: example_defs)
  have c: "versions crowded_tablet \<noteq> []" "major (version (last (versions crowded_tablet))) + 1 < 3"
    "3 \<in> fst ` set (pending_commits crowded_tablet)" "100 < length (pending_commits crowded_tablet)"
    using crowded_has_3 by (simp_all add: crowded_tablet_def crowded_length example_defs)
  have m: "rowset_metas (meta example_tablet) - {rowset_id (example_rowset 9)} = {7, 8}"
    by (auto simp: example_defs)
  from pending_duplicate_is_ignored[OF h(1,2,3), of 0 est_zero "example_rowset 9"] h(4,5,6)
  have a: "fst (rowset_commit 0 est_zero 3 (example_rowset 9) example_tablet) = OK"
    and b: "pending_commits (snd (rowset_commit 0 est_zero 3 (example_rowset 9) example_tablet))
              = pending_commits example_tablet"
    and d: "rowset_metas (meta (snd (rowset_commit 0 est_zero 3 (example_rowset 9) example_tablet)))
              = rowset_metas (meta example_tablet) - {rowset_id (example_rowset 9)}"
    by blast+
  from pending_duplicate_is_ignored[OF c(1,2,3), of 0 est_zero "example_rowset 9"] c(4)
  have e: "rowset_commit 0 est_zero 3 (example_rowset 9) crowded_tablet = (InternalError, crowded_tablet)"
    by blast
  from h c a b d e m show ?thesis by simp
qed

section \<open>The compaction score\<close>





section \<open>The cardinality check of \<^verbatim>\<open>_apply_rowset_commit\<close>\<close>


















section \<open>The inputs of a compaction\<close>


lemma rows_after_Cons [simp]:
  "rows_after r (e # es) = rows_after (r + ce_num_rows e - ce_num_dels e) es"
  by (simp add: rows_after_def)

lemma bytes_after_Cons [simp]:
  "bytes_after b (e # es) =
     bytes_after (b + ce_bytes e * (ce_num_rows e - ce_num_dels e) div ce_num_rows e) es"
  by (simp add: bytes_after_def)

lemma after_Nil [simp]: "rows_after r [] = r" "bytes_after b [] = b"
  by (simp_all add: rows_after_def bytes_after_def)












section \<open>The statuses of \<^verbatim>\<open>get_applied_rowsets\<close>\<close>


lemma wait_loop_returns_by_timeout:
  "timeout_ms < now - wait_start \<Longrightarrow>
     wait_loop ver timeout_ms wait_start ((now, t) # wakes) \<noteq> None"
  by simp











section \<open>The hash join: build and probe\<close>

lemma chain_rows_0 [simp]: "chain_rows nxt 0 = []"
  by (simp add: chain_rows.simps)

lemma chain_rows_step:
  "wf_links nxt \<Longrightarrow> 0 < b \<Longrightarrow> b < length nxt \<Longrightarrow> chain_rows nxt b = b # chain_rows nxt (nxt ! b)"
  by (subst chain_rows.simps) (auto simp: wf_links_def)

lemma probe_chain_char:
  assumes "wf_links nxt" "length bd = length nxt"
  shows "b < length nxt \<Longrightarrow> b \<le> fuel \<Longrightarrow> length out \<le> chunk \<Longrightarrow>
    (length out + length (filter (\<lambda>r. bd ! r = key) (chain_rows nxt b)) \<le> chunk \<longrightarrow>
       probe_chain fuel chunk fp nxt bd key i b out c
         = ChainDone (out @ map (Pair i) (filter (\<lambda>r. bd ! r = key) (chain_rows nxt b)))
             (if fp then c + length (filter (\<lambda>r. bd ! r = key) (chain_rows nxt b)) else c)) \<and>
    (chunk < length out + length (filter (\<lambda>r. bd ! r = key) (chain_rows nxt b)) \<longrightarrow>
       (\<exists>b'. probe_chain fuel chunk fp nxt bd key i b out c
          = ChunkFull b'
              (out @ map (Pair i)
                 (take (chunk - length out) (filter (\<lambda>r. bd ! r = key) (chain_rows nxt b))))
              (if fp then c + (chunk - length out) + 1 else c) \<and>
          0 < b' \<and> b' < length nxt \<and> bd ! b' = key \<and>
          filter (\<lambda>r. bd ! r = key) (chain_rows nxt b')
            = drop (chunk - length out) (filter (\<lambda>r. bd ! r = key) (chain_rows nxt b))))"
proof (induction fuel arbitrary: b out c)
  case 0
  then show ?case by simp
next
  case (Suc fuel)
  show ?case
  proof (cases "b = 0")
    case True
    with Suc.prems(3) show ?thesis by simp
  next
    case False
    then have b: "0 < b" by simp
    note cr = chain_rows_step[OF assms(1) b Suc.prems(1)]
    from assms(1) b Suc.prems(1) have lt: "nxt ! b < b" by (simp add: wf_links_def)
    with Suc.prems have n: "nxt ! b < length nxt" "nxt ! b \<le> fuel" by simp_all
    let ?ms' = "filter (\<lambda>r. bd ! r = key) (chain_rows nxt (nxt ! b))"
    show ?thesis
    proof (cases "bd ! b = key")
      case m: True
      show ?thesis
      proof (cases "length out = chunk")
        case True
        with m b Suc.prems assms(2) cr show ?thesis by (simp add: Let_def)
      next
        case False
        with Suc.prems have l: "length (out @ [(i, b)]) \<le> chunk" by simp
        note ih = Suc.IH[OF n l, of "if fp then c + 1 else c"]
        have k: "chunk - length out = Suc (chunk - length (out @ [(i, b)]))"
          using False Suc.prems(3) by simp
        from False Suc.prems(3) have nf: "\<not> chunk < length out + 1" by simp
        have pc: "probe_chain (Suc fuel) chunk fp nxt bd key i b out c
          = probe_chain fuel chunk fp nxt bd key i (nxt ! b) (out @ [(i, b)]) (if fp then c + 1 else c)"
          using m b Suc.prems(1) assms(2) nf by (simp add: Let_def)
        show ?thesis
          unfolding pc cr using ih m
          by (simp add: k del: length_append) (auto simp: Suc_diff_le)
      qed
    next
      case nm: False
      note ih = Suc.IH[OF n Suc.prems(3), of c]
      have pc: "probe_chain (Suc fuel) chunk fp nxt bd key i b out c
          = probe_chain fuel chunk fp nxt bd key i (nxt ! b) out c"
        using nm b Suc.prems(1) assms(2) by simp
      show ?thesis unfolding pc cr using ih nm by simp
    qed
  qed
qed

lemma pending_matches_Cons [simp]:
  "pending_matches t pd nxts (i # rows) = row_matches t pd nxts i @ pending_matches t pd nxts rows"
  by (simp add: pending_matches_def)

lemma pending_matches_Nil [simp]: "pending_matches t pd nxts [] = []"
  by (simp add: pending_matches_def)

lemma pending_matches_update:
  "i \<notin> set rows \<Longrightarrow> pending_matches t pd (nxts[i := b]) rows = pending_matches t pd nxts rows"
  by (induction rows) (auto simp: row_matches_def)

lemma probe_over_reset [simp]:
  "probe_over fp om out (ps\<lparr>cur_row_match_count := 0\<rparr>) = probe_over fp om out ps"
  by (simp add: probe_over_def)

lemma emitted_fields [simp]:
  "emitted (ps\<lparr>probe_index := map fst out, build_index := map snd out\<rparr>) = out"
  by (simp add: emitted_def zip_map_fst_snd)

lemma probe_rows_char:
  assumes "wf_links (ht_next t)" "length (build_data t) = length (ht_next t)"
  shows "rows_ok t pd (ps_next ps) rows \<Longrightarrow> length out \<le> chunk \<Longrightarrow>
    (fp \<longrightarrow> cur_row_match_count ps = 0) \<Longrightarrow>
    (length out + length (pending_matches t pd (ps_next ps) rows) \<le> chunk \<longrightarrow>
       probe_rows chunk fp t pd rows ps out om
         = Some (probe_over fp
             (if fp then om \<and> (\<forall>i \<in> set rows. length (row_matches t pd (ps_next ps) i) \<le> 1)
              else om)
             (out @ pending_matches t pd (ps_next ps) rows) ps)) \<and>
    (chunk < length out + length (pending_matches t pd (ps_next ps) rows) \<longrightarrow>
       (\<exists>ps' pre i post b.
          probe_rows chunk fp t pd rows ps out om = Some ps' \<and>
          rows = pre @ i # post \<and>
          stopped_at ps chunk i b (take chunk (out @ pending_matches t pd (ps_next ps) rows)) ps' \<and>
          0 < b \<and> b < length (ht_next t) \<and> build_data t ! b = pd ! i \<and>
          pending_matches t pd ((ps_next ps)[i := b]) (i # post)
            = drop chunk (out @ pending_matches t pd (ps_next ps) rows)))"
proof (induction rows arbitrary: ps out om)
  case Nil
  then show ?case by simp
next
  case (Cons i rows)
  let ?nxt = "ht_next t" and ?bd = "build_data t"
  let ?ms = "filter (\<lambda>r. ?bd ! r = pd ! i) (chain_rows ?nxt (ps_next ps ! i))"
  let ?R' = "pending_matches t pd (ps_next ps) rows"
  from Cons.prems(1) have i: "i < length (ps_next ps)" "i < length pd"
    "ps_next ps ! i < length ?nxt" "i \<notin> set rows"
    and ok: "rows_ok t pd (ps_next ps) rows"
    by (auto simp: rows_ok_def)
  have rm: "row_matches t pd (ps_next ps) i = map (Pair i) ?ms" by (simp add: row_matches_def)
  note A = probe_chain_char[OF assms i(3) less_imp_le[OF i(3)] Cons.prems(2),
      of "pd ! i" fp i "cur_row_match_count ps"]
  show ?case
  proof (cases "length out + length ?ms \<le> chunk")
    case True
    let ?out' = "out @ map (Pair i) ?ms"
    let ?c = "if fp then cur_row_match_count ps + length ?ms else cur_row_match_count ps"
    let ?ps0 = "if fp then ps\<lparr>cur_row_match_count := 0\<rparr> else ps"
    let ?om0 = "if fp then om \<and> \<not> ?c > 1 else om"
    from A True have pc: "probe_chain (length ?nxt) chunk fp ?nxt ?bd (pd ! i) i (ps_next ps ! i) out
        (cur_row_match_count ps) = ChainDone ?out' ?c" by blast
    have step: "probe_rows chunk fp t pd (i # rows) ps out om
                 = probe_rows chunk fp t pd rows ?ps0 ?out' ?om0"
      using i pc by simp
    have nx: "ps_next ?ps0 = ps_next ps" by simp
    have ok0: "rows_ok t pd (ps_next ?ps0) rows" using ok by simp
    have l: "length ?out' \<le> chunk" using True by simp
    have c0: "fp \<longrightarrow> cur_row_match_count ?ps0 = 0" by simp
    note ih = Cons.IH[OF ok0 l c0, of ?om0, unfolded nx]
    have po: "probe_over fp x y ?ps0 = probe_over fp x y ps" for x y by simp
    have fl: "match_flag ?ps0 = match_flag ps" "probe_row_count ?ps0 = probe_row_count ps" by simp_all
    show ?thesis
    proof (intro conjI impI)
      assume f: "length out + length (pending_matches t pd (ps_next ps) (i # rows)) \<le> chunk"
      then have "length ?out' + length ?R' \<le> chunk" by (simp add: rm)
      with ih have "probe_rows chunk fp t pd rows ?ps0 ?out' ?om0
         = Some (probe_over fp
             (if fp then ?om0 \<and> (\<forall>i \<in> set rows. length (row_matches t pd (ps_next ps) i) \<le> 1)
              else ?om0) (?out' @ ?R') ?ps0)" by blast
      then have e1: "probe_rows chunk fp t pd (i # rows) ps out om
         = Some (probe_over fp
             (if fp then ?om0 \<and> (\<forall>i \<in> set rows. length (row_matches t pd (ps_next ps) i) \<le> 1)
              else ?om0) (?out' @ ?R') ?ps0)"
        by (simp only: step)
      have e2: "probe_over fp
             (if fp then ?om0 \<and> (\<forall>i \<in> set rows. length (row_matches t pd (ps_next ps) i) \<le> 1)
              else ?om0) (?out' @ ?R') ?ps0
          = probe_over fp
             (if fp then om \<and> (\<forall>i \<in> set (i # rows). length (row_matches t pd (ps_next ps) i) \<le> 1)
              else om)
             (out @ pending_matches t pd (ps_next ps) (i # rows)) ps"
        using Cons.prems(3) by (cases fp) (auto simp: rm po intro: arg_cong)
      show "probe_rows chunk fp t pd (i # rows) ps out om
         = Some (probe_over fp
             (if fp then om \<and> (\<forall>i \<in> set (i # rows). length (row_matches t pd (ps_next ps) i) \<le> 1)
              else om)
             (out @ pending_matches t pd (ps_next ps) (i # rows)) ps)"
        unfolding e1 e2 by (rule refl)
    next
      assume f: "chunk < length out + length (pending_matches t pd (ps_next ps) (i # rows))"
      then have "chunk < length ?out' + length ?R'" by (simp add: rm)
      with ih obtain ps' pre j post b where
        r: "probe_rows chunk fp t pd rows ?ps0 ?out' ?om0 = Some ps'"
        and sp: "rows = pre @ j # post"
        and st: "stopped_at ?ps0 chunk j b (take chunk (?out' @ ?R')) ps'"
        and b: "0 < b" "b < length ?nxt" "?bd ! b = pd ! j"
        and pm: "pending_matches t pd ((ps_next ps)[j := b]) (j # post) = drop chunk (?out' @ ?R')"
        by blast
      from st have st': "stopped_at ps chunk j b
           (take chunk (out @ pending_matches t pd (ps_next ps) (i # rows))) ps'"
        unfolding stopped_at_def nx fl by (simp add: rm)
      from pm have pm': "pending_matches t pd ((ps_next ps)[j := b]) (j # post)
           = drop chunk (out @ pending_matches t pd (ps_next ps) (i # rows))"
        by (simp add: rm)
      from sp have sp': "i # rows = (i # pre) @ j # post" by simp
      from step r st' sp' b pm'
      show "\<exists>ps' pre ia post b.
          probe_rows chunk fp t pd (i # rows) ps out om = Some ps' \<and>
          i # rows = pre @ ia # post \<and>
          stopped_at ps chunk ia b (take chunk (out @ pending_matches t pd (ps_next ps) (i # rows))) ps' \<and>
          0 < b \<and> b < length (ht_next t) \<and> build_data t ! b = pd ! ia \<and>
          pending_matches t pd ((ps_next ps)[ia := b]) (ia # post)
            = drop chunk (out @ pending_matches t pd (ps_next ps) (i # rows))"
        by metis
    qed
  next
    case False
    then have over: "chunk < length out + length ?ms" by simp
    with A obtain b' where
      pc: "probe_chain (length ?nxt) chunk fp ?nxt ?bd (pd ! i) i (ps_next ps ! i) out
            (cur_row_match_count ps)
           = ChunkFull b' (out @ map (Pair i) (take (chunk - length out) ?ms))
               (if fp then cur_row_match_count ps + (chunk - length out) + 1
                else cur_row_match_count ps)"
      and b: "0 < b'" "b' < length ?nxt" "?bd ! b' = pd ! i"
      and dr: "filter (\<lambda>r. ?bd ! r = pd ! i) (chain_rows ?nxt b') = drop (chunk - length out) ?ms"
      by blast
    let ?o = "out @ map (Pair i) (take (chunk - length out) ?ms)"
    let ?ps' = "ps\<lparr>ps_next := (ps_next ps)[i := b'],
                      cur_probe_index := i,
                      has_remain := True,
                      probe_count := chunk,
                      cur_row_match_count :=
                        (if fp then cur_row_match_count ps + (chunk - length out) + 1
                         else cur_row_match_count ps),
                      probe_index := map fst ?o,
                      build_index := map snd ?o\<rparr>"
    have res: "probe_rows chunk fp t pd (i # rows) ps out om = Some ?ps'"
      using i pc by simp
    have tk: "take chunk (out @ pending_matches t pd (ps_next ps) (i # rows)) = ?o"
      using over Cons.prems(2) by (simp add: rm take_map)
    have dk: "drop chunk (out @ pending_matches t pd (ps_next ps) (i # rows))
                = map (Pair i) (drop (chunk - length out) ?ms) @ ?R'"
      using over Cons.prems(2) by (simp add: rm drop_map)
    have st: "stopped_at ps chunk i b' ?o ?ps'"
      unfolding stopped_at_def
    proof (intro conjI)
      show "emitted ?ps' = ?o" by (rule emitted_fields)
    qed simp_all
    have pm: "pending_matches t pd ((ps_next ps)[i := b']) (i # rows)
                = map (Pair i) (drop (chunk - length out) ?ms) @ ?R'"
      using i dr by (simp add: row_matches_def pending_matches_update)
    show ?thesis
    proof (intro conjI impI)
      assume "length out + length (pending_matches t pd (ps_next ps) (i # rows)) \<le> chunk"
      with over show "probe_rows chunk fp t pd (i # rows) ps out om
         = Some (probe_over fp
             (if fp then om \<and> (\<forall>i \<in> set (i # rows). length (row_matches t pd (ps_next ps) i) \<le> 1)
              else om)
             (out @ pending_matches t pd (ps_next ps) (i # rows)) ps)"
        by (simp add: rm)
    next
      have "i # rows = [] @ i # rows" by simp
      with res st b pm tk dk
      show "\<exists>ps' pre ia post b.
          probe_rows chunk fp t pd (i # rows) ps out om = Some ps' \<and>
          i # rows = pre @ ia # post \<and>
          stopped_at ps chunk ia b (take chunk (out @ pending_matches t pd (ps_next ps) (i # rows))) ps' \<and>
          0 < b \<and> b < length (ht_next t) \<and> build_data t ! b = pd ! ia \<and>
          pending_matches t pd ((ps_next ps)[ia := b]) (ia # post)
            = drop chunk (out @ pending_matches t pd (ps_next ps) (i # rows))"
        by metis
    qed
  qed
qed

lemma upt_split:
  assumes "[a..<n] = pre @ i # post"
  shows "i # post = [i..<n] \<and> a \<le> i \<and> i < n"
proof -
  have l: "length pre < length [a..<n]" unfolding assms by simp
  then have ln: "a + length pre < n" by simp
  have "[a..<n] ! length pre = i" unfolding assms by simp
  with ln have i: "i = a + length pre" by simp
  have "drop (length pre) [a..<n] = i # post" unfolding assms by simp
  then have "[a + length pre..<n] = i # post" by simp
  with i ln show ?thesis by simp
qed

lemma probe_from_ht_char:
  assumes "wf_links (ht_next t)" "length (build_data t) = length (ht_next t)"
    and "probe_ok t pd ps" "fp \<longrightarrow> cur_row_match_count ps = 0"
  shows "(length (all_matches t pd ps) \<le> chunk \<longrightarrow>
           probe_from_ht chunk fp t pd ps
             = Some (probe_over fp
                 (if fp then \<forall>i \<in> set [cur_probe_index ps..<probe_row_count ps].
                               length (row_matches t pd (ps_next ps) i) \<le> 1
                  else True)
                 (all_matches t pd ps) (ps\<lparr>match_flag := NORMAL\<rparr>))) \<and>
         (chunk < length (all_matches t pd ps) \<longrightarrow>
           (\<exists>ps'. probe_from_ht chunk fp t pd ps = Some ps' \<and>
              emitted ps' = take chunk (all_matches t pd ps) \<and>
              has_remain ps' \<and> probe_count ps' = chunk \<and>
              probe_row_count ps' = probe_row_count ps \<and>
              cur_probe_index ps' < probe_row_count ps \<and>
              probe_ok t pd ps' \<and>
              all_matches t pd ps' = drop chunk (all_matches t pd ps) \<and>
              hd (drop chunk (all_matches t pd ps))
                = (cur_probe_index ps', ps_next ps' ! cur_probe_index ps')))"
proof -
  let ?rows = "[cur_probe_index ps..<probe_row_count ps]"
  let ?ps = "ps\<lparr>match_flag := NORMAL\<rparr>"
  let ?M = "all_matches t pd ps"
  have nx: "ps_next ?ps = ps_next ps" by simp
  from assms(3) have ok: "rows_ok t pd (ps_next ?ps) ?rows"
    by (auto simp: rows_ok_def probe_ok_def)
  have c0: "fp \<longrightarrow> cur_row_match_count ?ps = 0" using assms(4) by simp
  have l0: "length ([] :: (nat \<times> nat) list) \<le> chunk" by simp
  note B = probe_rows_char[OF assms(1,2) ok l0 c0, of True, unfolded nx]
  have M: "pending_matches t pd (ps_next ps) ?rows = ?M" by (simp add: all_matches_def)
  show ?thesis
  proof (intro conjI impI)
    assume "length ?M \<le> chunk"
    with B M show "probe_from_ht chunk fp t pd ps
             = Some (probe_over fp
                 (if fp then \<forall>i \<in> set ?rows. length (row_matches t pd (ps_next ps) i) \<le> 1
                  else True) ?M ?ps)"
      by (simp add: probe_from_ht_def)
  next
    assume "chunk < length ?M"
    with B M obtain ps' pre i post b where
      r: "probe_rows chunk fp t pd ?rows ?ps [] True = Some ps'"
      and sp: "?rows = pre @ i # post"
      and st: "stopped_at ?ps chunk i b (take chunk ?M) ps'"
      and b: "0 < b" "b < length (ht_next t)" "build_data t ! b = pd ! i"
      and pm: "pending_matches t pd ((ps_next ps)[i := b]) (i # post) = drop chunk ?M"
      by auto
    from upt_split[OF sp] have up: "i # post = [i..<probe_row_count ps]"
      and i: "cur_probe_index ps \<le> i" "i < probe_row_count ps" by simp_all
    from st have f: "emitted ps' = take chunk ?M" "has_remain ps'" "probe_count ps' = chunk"
      "probe_row_count ps' = probe_row_count ps" "cur_probe_index ps' = i"
      "ps_next ps' = (ps_next ps)[i := b]"
      by (simp_all add: stopped_at_def)
    from assms(3) i have il: "i < length (ps_next ps)" by (simp add: probe_ok_def)
    have ok': "probe_ok t pd ps'"
      using assms(3) f i b(2) by (auto simp: probe_ok_def nth_list_update)
    have am: "all_matches t pd ps' = drop chunk ?M"
      using pm f up by (simp add: all_matches_def)
    have cr: "chain_rows (ht_next t) b = b # chain_rows (ht_next t) (ht_next t ! b)"
      using chain_rows_step[OF assms(1) b(1,2)] .
    have rmb: "row_matches t pd ((ps_next ps)[i := b]) i
            = (i, b) # map (Pair i) (filter (\<lambda>r. build_data t ! r = pd ! i)
                  (chain_rows (ht_next t) (ht_next t ! b)))"
      using il b(3) by (simp add: row_matches_def cr)
    have "hd (drop chunk ?M) = (i, b)"
      unfolding pm[symmetric] by (simp add: rmb)
    with il f have hd: "hd (drop chunk ?M) = (cur_probe_index ps', ps_next ps' ! cur_probe_index ps')"
      by simp
    from r f i ok' am hd
    show "\<exists>ps'. probe_from_ht chunk fp t pd ps = Some ps' \<and>
              emitted ps' = take chunk ?M \<and>
              has_remain ps' \<and> probe_count ps' = chunk \<and>
              probe_row_count ps' = probe_row_count ps \<and>
              cur_probe_index ps' < probe_row_count ps \<and>
              probe_ok t pd ps' \<and>
              all_matches t pd ps' = drop chunk ?M \<and>
              hd (drop chunk ?M) = (cur_probe_index ps', ps_next ps' ! cur_probe_index ps')"
      by (simp add: probe_from_ht_def)
  qed
qed

lemma probe_over_fields [simp]:
  "emitted (probe_over fp om out ps) = out"
  "has_remain (probe_over fp om out ps) = False"
  "cur_probe_index (probe_over fp om out ps) = 0"
  "cur_row_match_count (probe_over fp om out ps) = 0"
  "probe_count (probe_over fp om out ps) = length out"
  by (simp_all add: probe_over_def emitted_def zip_map_fst_snd)

lemma probe_until_drained_char:
  assumes "wf_links (ht_next t)" "length (build_data t) = length (ht_next t)" "0 < chunk"
  shows "probe_ok t pd ps \<Longrightarrow> (fp \<longrightarrow> cur_row_match_count ps = 0) \<Longrightarrow>
     length (all_matches t pd ps) < fuel \<Longrightarrow>
     \<exists>states. probe_until_drained fuel chunk fp t pd ps = Some states \<and>
        drained chunk (all_matches t pd ps) states"
proof (induction fuel arbitrary: ps fp)
  case 0
  then show ?case by simp
next
  case (Suc fuel)
  let ?M = "all_matches t pd ps"
  note C = probe_from_ht_char[OF assms(1,2) Suc.prems(1,2), of chunk]
  show ?case
  proof (cases "length ?M \<le> chunk")
    case True
    with C obtain om where
      r: "probe_from_ht chunk fp t pd ps = Some (probe_over fp om ?M (ps\<lparr>match_flag := NORMAL\<rparr>))"
      by blast
    let ?ps' = "probe_over fp om ?M (ps\<lparr>match_flag := NORMAL\<rparr>)"
    have "probe_until_drained (Suc fuel) chunk fp t pd ps = Some [?ps']"
      using r by simp
    moreover have "drained chunk ?M [?ps']"
      using True by (simp add: drained_def)
    ultimately show ?thesis by blast
  next
    case False
    then have over: "chunk < length ?M" by simp
    with C obtain ps' where
      r: "probe_from_ht chunk fp t pd ps = Some ps'"
      and e: "emitted ps' = take chunk ?M" and h: "has_remain ps'" "probe_count ps' = chunk"
      and ok: "probe_ok t pd ps'" and am: "all_matches t pd ps' = drop chunk ?M"
      and hd: "hd (drop chunk ?M) = (cur_probe_index ps', ps_next ps' ! cur_probe_index ps')"
      by blast
    have l: "length (all_matches t pd ps') < fuel"
      using am Suc.prems(3) assms(3) over by simp
    have f: "False \<longrightarrow> cur_row_match_count ps' = 0" by simp
    from Suc.IH[OF ok f l] obtain rest where
      rr: "probe_until_drained fuel chunk False t pd ps' = Some rest"
      and d: "drained chunk (drop chunk ?M) rest"
      unfolding am by blast
    have res: "probe_until_drained (Suc fuel) chunk fp t pd ps = Some (ps' # rest)"
      using r h rr by simp
    from d have ne: "rest \<noteq> []" by (simp add: drained_def)
    then obtain s' rest' where rest: "rest = s' # rest'" by (cases rest) auto
    from d rest have es: "emitted s' = take chunk (drop chunk ?M)" by (simp add: drained_def)
    from over assms(3) have "take chunk (drop chunk ?M) \<noteq> []" by simp
    then have "hd (take chunk (drop chunk ?M)) = hd (drop chunk ?M)"
      using assms(3) by (cases "drop chunk ?M") (auto simp: take_Suc_conv_app_nth gr0_conv_Suc)
    with es hd have rs: "hd (emitted s') = (cur_probe_index ps', ps_next ps' ! cur_probe_index ps')"
      by simp
    have el: "length (emitted ps') = chunk" using e over by simp
    from d have d1: "concat (map emitted rest) = drop chunk ?M"
      and d3: "\<forall>s \<in> set (butlast rest).
                 has_remain s \<and> probe_count s = chunk \<and> length (emitted s) = chunk"
      and d4: "resumes rest"
      and d5: "\<not> has_remain (last rest)" "cur_probe_index (last rest) = 0"
        "cur_row_match_count (last rest) = 0" "probe_count (last rest) = length (emitted (last rest))"
      by (simp_all add: drained_def)
    have "drained chunk ?M (ps' # rest)"
      unfolding drained_def
    proof (intro conjI impI)
      show "ps' # rest \<noteq> []" by simp
      show "concat (map emitted (ps' # rest)) = ?M" by (simp add: d1 e)
      show "emitted (hd (ps' # rest)) = take chunk ?M" by (simp add: e)
      show "\<forall>s \<in> set (butlast (ps' # rest)).
              has_remain s \<and> probe_count s = chunk \<and> length (emitted s) = chunk"
        using ne d3 h el by simp
      show "resumes (ps' # rest)" using d4 rs unfolding rest by simp
      show "\<not> has_remain (last (ps' # rest))" "cur_probe_index (last (ps' # rest)) = 0"
        "cur_row_match_count (last (ps' # rest)) = 0"
        "probe_count (last (ps' # rest)) = length (emitted (last (ps' # rest)))"
        using ne d5 by simp_all
      show "1 < length (ps' # rest)" using ne by (cases rest) simp_all
      show "length (ps' # rest) = 1" if "length ?M \<le> chunk" using that over by simp
    qed
    with res show ?thesis by blast
  qed
qed

lemma chain_rows_le: "wf_links nxt \<Longrightarrow> r \<in> set (chain_rows nxt b) \<Longrightarrow> r \<le> b \<and> 0 < r"
proof (induction nxt b rule: chain_rows.induct)
  case (1 nxt b)
  show ?case
  proof (cases "b = 0 \<or> length nxt \<le> b \<or> b \<le> nxt ! b")
    case True
    with "1.prems"(2) show ?thesis by (subst (asm) chain_rows.simps) simp
  next
    case False
    with "1.prems"(2) have "r = b \<or> r \<in> set (chain_rows nxt (nxt ! b))"
      by (subst (asm) chain_rows.simps) simp
    with "1.IH"[OF False "1.prems"(1)] False show ?thesis by auto
  qed
qed

lemma chain_rows_distinct: "wf_links nxt \<Longrightarrow> distinct (chain_rows nxt b)"
proof (induction nxt b rule: chain_rows.induct)
  case (1 nxt b)
  show ?case
  proof (cases "b = 0 \<or> length nxt \<le> b \<or> b \<le> nxt ! b")
    case True
    then show ?thesis by (subst chain_rows.simps) simp
  next
    case False
    from chain_rows_le[OF "1.prems", where r = b and b = "nxt ! b"] False
    have "b \<notin> set (chain_rows nxt (nxt ! b))" by auto
    with "1.IH"[OF False "1.prems"] False show ?thesis by (subst chain_rows.simps) simp
  qed
qed





lemma least_pow2_pos: "0 < least_pow2 m"
proof (induction m rule: least_pow2.induct)
  case (1 m)
  show ?case
  proof (cases "m \<le> 1")
    case True
    then show ?thesis by (subst least_pow2.simps) simp
  next
    case False
    with "1.IH" show ?thesis by (subst least_pow2.simps) simp
  qed
qed

lemma calc_bucket_size_pos: "0 < calc_bucket_size n"
  by (simp add: calc_bucket_size_def least_pow2_pos)

lemma chain_rows_cong:
  "length nxt' = length nxt \<Longrightarrow> (\<forall>j \<le> b. nxt' ! j = nxt ! j) \<Longrightarrow>
     chain_rows nxt' b = chain_rows nxt b"
proof (induction nxt b rule: chain_rows.induct)
  case (1 nxt b)
  from "1.prems" have e: "nxt' ! b = nxt ! b" by simp
  show ?case
  proof (cases "b = 0 \<or> length nxt \<le> b \<or> b \<le> nxt ! b")
    case True
    with e "1.prems"(1) show ?thesis
      by (subst chain_rows.simps, subst (2) chain_rows.simps) simp
  next
    case False
    then have "nxt ! b < b" by simp
    with "1.prems"(2) have "\<forall>j \<le> nxt ! b. nxt' ! j = nxt ! j" by simp
    from "1.IH"[OF False "1.prems"(1) this] False e "1.prems"(1) show ?thesis
      by (subst chain_rows.simps, subst (2) chain_rows.simps) simp
  qed
qed

lemma wf_links_replicate: "wf_links (replicate m 0)"
  by (simp add: wf_links_def)

lemma built_prepare: "built hash st rows 0 (prepare_table st rows)"
  using wf_links_replicate[of "length rows + 1"]
  by (simp add: built_def prepare_table_def del: replicate_Suc)

lemma in_bucket_cong:
  "build_data t' = build_data t \<Longrightarrow> bucket_size t' = bucket_size t \<Longrightarrow>
     in_bucket hash rows t' = in_bucket hash rows t"
  by (auto simp: in_bucket_def fun_eq_iff)

lemma built_insert:
  assumes "built hash st rows k t" "k < length rows"
  shows "built hash st rows (Suc k) (insert_row hash st rows t (Suc k))"
proof (cases "is_null_row (rows ! k)")
  case True
  then have "insert_row hash st rows t (Suc k) = t" by (simp add: insert_row_def)
  moreover from True have "filter (in_bucket hash rows t b) [1..<Suc k + 1]
      = filter (in_bucket hash rows t b) [1..<k + 1]" for b
    by (simp add: in_bucket_def)
  ultimately show ?thesis using assms(1) by (auto simp: built_def le_Suc_eq)
next
  case False
  let ?i = "Suc k"
  let ?c = "hash (build_data t ! ?i) mod bucket_size t"
  let ?t' = "t\<lparr>ht_next := (ht_next t)[?i := first t ! ?c], first := (first t)[?c := ?i]\<rparr>"
  from assms(1) have B: "bucket_size t = calc_bucket_size (length rows)"
    and lf: "length (first t) = bucket_size t"
    and ln: "length (ht_next t) = length rows + 1"
    and bd: "build_data t = row_key st [] # map (row_key st) rows"
    and wf: "wf_links (ht_next t)"
    and le: "\<forall>b < bucket_size t. first t ! b \<le> k"
    and ch: "\<forall>b < bucket_size t.
        chain_rows (ht_next t) (first t ! b) = rev (filter (in_bucket hash rows t b) [1..<k + 1])"
    by (simp_all add: built_def)
  have Bpos: "0 < bucket_size t" using B calc_bucket_size_pos by simp
  then have c: "?c < bucket_size t" by simp
  have t': "insert_row hash st rows t ?i = ?t'"
    using False by (simp add: insert_row_def Let_def)
  have i: "?i < length (ht_next t)" using assms(2) ln by simp
  from le c have fc: "first t ! ?c \<le> k" by simp
  have wf': "wf_links (ht_next ?t')"
    unfolding wf_links_def
  proof (intro allI impI)
    fix b assume "0 < b \<and> b < length (ht_next ?t')"
    with wf fc i show "ht_next ?t' ! b < b"
      by (cases "b = ?i") (auto simp: wf_links_def nth_list_update)
  qed
  have ib: "in_bucket hash rows ?t' = in_bucket hash rows t"
    by (rule in_bucket_cong) simp_all
  have same: "chain_rows (ht_next ?t') x = chain_rows (ht_next t) x" if "x \<le> k" for x
    using that by (intro chain_rows_cong) (auto simp: nth_list_update)
  have chains: "chain_rows (ht_next ?t') (first ?t' ! b)
                  = rev (filter (in_bucket hash rows ?t' b) [1..<?i + 1])"
    if b: "b < bucket_size ?t'" for b
  proof (cases "b = ?c")
    case True
    have f: "first ?t' ! b = ?i" using True c lf by simp
    have n: "ht_next ?t' ! ?i = first t ! ?c" using i by simp
    have "chain_rows (ht_next ?t') ?i = ?i # chain_rows (ht_next ?t') (first t ! ?c)"
      using chain_rows_step[OF wf', of ?i] i n by simp
    also have "\<dots> = ?i # chain_rows (ht_next t) (first t ! ?c)"
      using same[OF fc] by simp
    also have "\<dots> = ?i # rev (filter (in_bucket hash rows t ?c) [1..<k + 1])"
      using ch c by simp
    also have "\<dots> = rev (filter (in_bucket hash rows t ?c) [1..<?i + 1])"
      using False by (simp add: in_bucket_def)
    finally show ?thesis using f True ib by simp
  next
    case nc: False
    from b have b': "b < bucket_size t" by simp
    have f: "first ?t' ! b = first t ! b" using nc by simp
    from le b' have "first t ! b \<le> k" by simp
    from same[OF this] ch b' have
      "chain_rows (ht_next ?t') (first t ! b) = rev (filter (in_bucket hash rows t b) [1..<k + 1])"
      by simp
    moreover have "\<not> in_bucket hash rows t b ?i" using nc by (simp add: in_bucket_def)
    ultimately show ?thesis using f ib by simp
  qed
  have le': "\<forall>b < bucket_size ?t'. first ?t' ! b \<le> ?i"
    using le lf by (auto simp: nth_list_update)
  show ?thesis
    unfolding t' built_def
    using B lf ln bd wf' le' chains by simp
qed

lemma built_fold:
  "built hash st rows 0 t \<Longrightarrow> k \<le> length rows \<Longrightarrow>
     built hash st rows k (foldl (insert_row hash st rows) t [1..<k + 1])"
proof (induction k)
  case 0
  then show ?case by simp
next
  case (Suc k)
  then have "built hash st rows k (foldl (insert_row hash st rows) t [1..<k + 1])" by simp
  from built_insert[OF this] Suc.prems(2) show ?case by simp
qed

lemma built_construct:
  "built hash st rows (length rows) (construct_hash_table hash st rows)"
  unfolding construct_hash_table_def by (rule built_fold[OF built_prepare order_refl])

lemma walk_chain_rows:
  "wf_links nxt \<Longrightarrow> index < length nxt \<Longrightarrow> index \<le> fuel \<Longrightarrow>
     walk_chain fuel nxt index = Some (chain_rows nxt index)"
proof (induction fuel arbitrary: index)
  case 0
  then show ?case by simp
next
  case (Suc fuel)
  show ?case
  proof (cases "index = 0")
    case True
    then show ?thesis by simp
  next
    case False
    with Suc.prems have lt: "nxt ! index < index" by (simp add: wf_links_def)
    with Suc.prems have "walk_chain fuel nxt (nxt ! index) = Some (chain_rows nxt (nxt ! index))"
      by (intro Suc.IH) simp_all
    with False Suc.prems chain_rows_step[of nxt index] show ?thesis by simp
  qed
qed

lemma built_chain_members:
  assumes "built hash st rows (length rows) t" "b < bucket_size t"
  shows "set (chain_rows (ht_next t) (first t ! b))
           = {r. 1 \<le> r \<and> r \<le> length rows \<and> in_bucket hash rows t b r}"
  using assms by (auto simp: built_def)

lemma built_first_bound:
  assumes "built hash st rows (length rows) t" "b < bucket_size t"
  shows "first t ! b < length (ht_next t)"
  using assms by (auto simp: built_def intro: le_imp_less_Suc)

lemma lookup_init_ok:
  assumes "built hash st rows (length rows) t"
  shows "probe_ok t (map (row_key st) prows) (lookup_init hash st t prows)"
proof -
  from assms have B: "0 < bucket_size t" and l: "0 < length (ht_next t)"
    using calc_bucket_size_pos by (simp_all add: built_def)
  have "(if is_null_row r then 0 else first t ! (hash (row_key st r) mod bucket_size t))
          < length (ht_next t)" for r
    using built_first_bound[OF assms, of "hash (row_key st r) mod bucket_size t"] B l by simp
  then show ?thesis by (simp add: probe_ok_def lookup_init_def)
qed

lemma row_matches_built:
  assumes "built hash st rows (length rows) t" "i < length prows"
    and "p \<in> set (row_matches t (map (row_key st) prows) (ps_next (lookup_init hash st t prows)) i)"
  shows "fst p = i \<and> \<not> is_null_row (prows ! i) \<and> 1 \<le> snd p \<and> snd p \<le> length rows \<and>
         \<not> is_null_row (rows ! (snd p - 1)) \<and>
         row_key st (rows ! (snd p - 1)) = row_key st (prows ! i)"
proof -
  let ?b = "hash (row_key st (prows ! i)) mod bucket_size t"
  from assms(1) have B: "0 < bucket_size t" using calc_bucket_size_pos by (simp add: built_def)
  from assms(1) have bd: "build_data t = row_key st [] # map (row_key st) rows"
    by (simp add: built_def)
  show ?thesis
  proof (cases "is_null_row (prows ! i)")
    case True
    with assms(2,3) show ?thesis by (simp add: row_matches_def lookup_init_def)
  next
    case False
    with assms(2,3) obtain r where p: "p = (i, r)"
      and r: "r \<in> set (chain_rows (ht_next t) (first t ! ?b))"
      and k: "build_data t ! r = row_key st (prows ! i)"
      by (auto simp: row_matches_def lookup_init_def)
    from r built_chain_members[OF assms(1), of ?b] B
    have m: "1 \<le> r" "r \<le> length rows" "in_bucket hash rows t ?b r" by auto
    from m(1,2) bd have "build_data t ! r = row_key st (rows ! (r - 1))"
      by (cases r) simp_all
    with k m p False show ?thesis by (simp add: in_bucket_def)
  qed
qed

lemma all_matches_built:
  assumes "built hash st rows (length rows) t"
    and "p \<in> set (all_matches t (map (row_key st) prows) (lookup_init hash st t prows))"
  shows "fst p < length prows \<and> \<not> is_null_row (prows ! fst p) \<and>
         1 \<le> snd p \<and> snd p \<le> length rows \<and> \<not> is_null_row (rows ! (snd p - 1)) \<and>
         row_key st (rows ! (snd p - 1)) = row_key st (prows ! fst p)"
proof -
  from assms(2) obtain i where i: "i < length prows"
    and p: "p \<in> set (row_matches t (map (row_key st) prows)
                       (ps_next (lookup_init hash st t prows)) i)"
    by (auto simp: all_matches_def pending_matches_def lookup_init_def)
  from row_matches_built[OF assms(1) i p] i show ?thesis by auto
qed

subsection \<open>A probe in which every row matches one build row\<close>

lemma filter_eq_upt: "filter (\<lambda>r. r = x) [a..<b] = (if a \<le> x \<and> x < b then [x] else [])"
  by (induction b) auto

lemma row_matches_distinct_keys:
  assumes "built hash st rows (length rows) t"
    and "\<forall>r \<in> set rows. \<not> is_null_row r" "distinct (map (row_key st) rows)"
    and "i < length rows"
  shows "row_matches t (map (row_key st) rows) (ps_next (lookup_init hash st t rows)) i
           = [(i, Suc i)]"
proof -
  let ?key = "row_key st (rows ! i)"
  let ?b = "hash ?key mod bucket_size t"
  from assms(1) have B: "0 < bucket_size t" using calc_bucket_size_pos by (simp add: built_def)
  then have b: "?b < bucket_size t" by simp
  from assms(1) have bd: "build_data t = row_key st [] # map (row_key st) rows"
    and ch: "chain_rows (ht_next t) (first t ! ?b)
               = rev (filter (in_bucket hash rows t ?b) [1..<length rows + 1])"
    using b by (simp_all add: built_def)
  from assms(2,4) have nn: "\<not> is_null_row (rows ! i)" by simp
  have p: "(in_bucket hash rows t ?b r \<and> build_data t ! r = ?key) = (r = Suc i)"
    if "r \<in> set [1..<length rows + 1]" for r
  proof -
    from that have "1 \<le> r" "r \<le> length rows" by (auto simp del: upt_Suc)
    then obtain j where r: "r = Suc j" and j: "j < length rows" by (cases r) auto
    from j have k: "build_data t ! r = row_key st (rows ! j)" by (simp add: bd r)
    from assms(3) j assms(4) have e: "(row_key st (rows ! j) = ?key) = (j = i)"
      using nth_eq_iff_index_eq[of "map (row_key st) rows" j i] by simp
    from assms(2) j have "\<not> is_null_row (rows ! j)" by simp
    with k e r show ?thesis by (auto simp: in_bucket_def)
  qed
  have "filter (\<lambda>r. build_data t ! r = ?key) (chain_rows (ht_next t) (first t ! ?b))
          = rev (filter (\<lambda>r. in_bucket hash rows t ?b r \<and> build_data t ! r = ?key)
                   [1..<length rows + 1])"
    by (simp add: ch rev_filter[symmetric] conj_commute)
  also have "\<dots> = rev (filter (\<lambda>r. r = Suc i) [1..<length rows + 1])"
    using p by (intro arg_cong[where f = rev] filter_cong) auto
  also have "\<dots> = [Suc i]" using assms(4) by (simp add: filter_eq_upt)
  finally show ?thesis using nn assms(4) by (simp add: row_matches_def lookup_init_def)
qed

lemma all_matches_distinct_keys:
  assumes "built hash st rows (length rows) t"
    and "\<forall>r \<in> set rows. \<not> is_null_row r" "distinct (map (row_key st) rows)"
  shows "all_matches t (map (row_key st) rows) (lookup_init hash st t rows)
           = map (\<lambda>i. (i, Suc i)) [0..<length rows]"
proof -
  have "pending_matches t (map (row_key st) rows) (ps_next (lookup_init hash st t rows)) [0..<k]
          = map (\<lambda>i. (i, Suc i)) [0..<k]" if "k \<le> length rows" for k
    using that
  proof (induction k)
    case 0
    then show ?case by simp
  next
    case (Suc k)
    then have "k < length rows" by simp
    from row_matches_distinct_keys[OF assms this] Suc show ?case
      by (simp add: pending_matches_def)
  qed
  from this[of "length rows"] show ?thesis by (simp add: all_matches_def lookup_init_def)
qed

text \<open>
  Claim C5. A table built from rows without null keys and with distinct keys, probed with
  the same rows in one batch that fits the chunk size, gives one pair per row:
  \<open>probe_index[i] = i\<close> and \<open>build_index[i] = i + 1\<close>, the build side counting from 1
  behind the sentinel row 0; the count is the number of rows, the match flag is
  \<^verbatim>\<open>ALL_MATCH_ONE\<close>, \<^verbatim>\<open>has_remain\<close> is false and both cursors are zero. This holds for
  every hash function and every key encoding; 4096 rows with the keys 0 to 4095 at a chunk
  size of 4096 are the instance below.
\<close>

theorem probe_all_match_one:
  assumes "no_nulls rows" "distinct (map (row_key st) rows)"
    "length rows \<le> chunk"
  shows "\<exists>ps'. probe_from_ht chunk True (construct_hash_table hash st rows)
                 (map (row_key st) rows)
                 (lookup_init hash st (construct_hash_table hash st rows) rows) = Some ps' \<and>
           probe_index ps' = [0..<length rows] \<and>
           build_index ps' = [1..<length rows + 1] \<and>
           probe_count ps' = length rows \<and>
           match_flag ps' = ALL_MATCH_ONE \<and>
           \<not> has_remain ps' \<and> cur_probe_index ps' = 0 \<and> cur_row_match_count ps' = 0"
proof -
  let ?t = "construct_hash_table hash st rows"
  let ?pd = "map (row_key st) rows"
  let ?ps = "lookup_init hash st ?t rows"
  let ?M = "map (\<lambda>i. (i, Suc i)) [0..<length rows]"
  note bt = built_construct[of hash st rows]
  from bt have wf: "wf_links (ht_next ?t)" and ln: "length (build_data ?t) = length (ht_next ?t)"
    by (simp_all add: built_def)
  note ok = lookup_init_ok[OF bt, of rows]
  have c0: "True \<longrightarrow> cur_row_match_count ?ps = 0" by (simp add: lookup_init_def)
  from assms(1) have nn: "\<forall>r \<in> set rows. \<not> is_null_row r" by (simp add: no_nulls_def)
  note am = all_matches_distinct_keys[OF bt nn assms(2)]
  have one: "\<forall>i \<in> set [cur_probe_index ?ps..<probe_row_count ?ps].
               length (row_matches ?t ?pd (ps_next ?ps) i) \<le> 1"
    using row_matches_distinct_keys[OF bt nn assms(2)] by (simp add: lookup_init_def)
  from probe_from_ht_char[OF wf ln ok c0, of chunk] assms(3) one
  have r: "probe_from_ht chunk True ?t ?pd ?ps
             = Some (probe_over True True ?M (?ps\<lparr>match_flag := NORMAL\<rparr>))"
    by (simp add: am)
  have n: "probe_row_count ?ps = length rows" by (simp add: lookup_init_def)
  have "probe_index (probe_over True True ?M (?ps\<lparr>match_flag := NORMAL\<rparr>)) = [0..<length rows]"
    "build_index (probe_over True True ?M (?ps\<lparr>match_flag := NORMAL\<rparr>)) = [1..<length rows + 1]"
    "match_flag (probe_over True True ?M (?ps\<lparr>match_flag := NORMAL\<rparr>)) = ALL_MATCH_ONE"
    using n by (simp_all add: probe_over_def comp_def map_Suc_upt[symmetric] map_upt_Suc del: upt_Suc)
  with r show ?thesis by simp
qed


lemma key_rows_facts:
  assumes "n < 2 ^ 32"
  shows "no_nulls (key_rows n)" "distinct (map (row_key SingleFixed) (key_rows n))"
    "length (key_rows n) = n"
proof -
  show "no_nulls (key_rows n)" by (auto simp: no_nulls_def key_rows_def is_null_row_def)
  have m: "map (row_key SingleFixed) (key_rows n) = map (\<lambda>k. Fixed (word_of_nat k)) [0..<n]"
    by (simp add: key_rows_def row_key_def comp_def)
  have "inj_on (\<lambda>k. Fixed (word_of_nat k :: 32 word)) (set [0..<n])"
  proof (rule inj_onI)
    fix x y assume x: "x \<in> set [0..<n]" and y: "y \<in> set [0..<n]"
      and e: "Fixed (word_of_nat x :: 32 word) = Fixed (word_of_nat y)"
    from x y assms have "x < 2 ^ 32" "y < 2 ^ 32" by auto
    with e show "x = y"
      by (simp add: word_of_nat_eq_iff take_bit_nat_eq_self)
  qed
  then show "distinct (map (row_key SingleFixed) (key_rows n))"
    unfolding m by (simp add: distinct_map)
  show "length (key_rows n) = n" by (simp add: key_rows_def)
qed

theorem probe_all_match_one_witness:
  "no_nulls (key_rows vector_chunk_size) \<and>
   distinct (map (row_key SingleFixed) (key_rows vector_chunk_size)) \<and>
   length (key_rows vector_chunk_size) = 4096 \<and> vector_chunk_size = 4096 \<and>
   (\<exists>ps'. probe_from_ht vector_chunk_size True
             (construct_hash_table key_hash SingleFixed (key_rows vector_chunk_size))
             (map (row_key SingleFixed) (key_rows vector_chunk_size))
             (lookup_init key_hash SingleFixed
                (construct_hash_table key_hash SingleFixed (key_rows vector_chunk_size))
                (key_rows vector_chunk_size)) = Some ps' \<and>
           probe_index ps' = [0..<vector_chunk_size] \<and>
           build_index ps' = [1..<vector_chunk_size + 1] \<and>
           probe_count ps' = 4096 \<and>
           match_flag ps' = ALL_MATCH_ONE \<and>
           \<not> has_remain ps' \<and> cur_probe_index ps' = 0 \<and> cur_row_match_count ps' = 0)"
proof -
  have n: "vector_chunk_size < 2 ^ 32" "vector_chunk_size = 4096"
    by (simp_all add: vector_chunk_size_def)
  note k = key_rows_facts[OF n(1)]
  have l: "length (key_rows vector_chunk_size) \<le> vector_chunk_size" by (simp add: k(3))
  from probe_all_match_one[OF k(1,2) l, of key_hash] k n(2)
  show ?thesis by (simp add: k(3) del: upt_Suc)
qed

subsection \<open>Null build keys\<close>

lemma drained_emitted_subset:
  assumes "drained chunk M states" "s \<in> set states" "p \<in> set (emitted s)"
  shows "p \<in> set M"
proof -
  from assms(1) have "concat (map emitted states) = M" by (simp add: drained_def)
  with assms(2,3) show ?thesis by auto
qed

lemma chain_rows_length: "wf_links nxt \<Longrightarrow> length (chain_rows nxt b) \<le> b"
proof (induction b rule: less_induct)
  case (less b)
  show ?case
  proof (cases "b = 0 \<or> b \<ge> length nxt \<or> nxt ! b \<ge> b")
    case True
    then show ?thesis by (subst chain_rows.simps) simp
  next
    case False
    then have lt: "nxt ! b < b" by simp
    from less.IH[OF lt less.prems] lt False show ?thesis
      by (subst chain_rows.simps) simp
  qed
qed

lemma pending_matches_length:
  assumes "\<forall>i \<in> set is. length (row_matches t pd nxts i) \<le> n"
  shows "length (pending_matches t pd nxts is) \<le> length is * n"
  using assms by (induction "is") (auto simp: pending_matches_def)

lemma all_matches_length:
  assumes "built hash st rows (length rows) t"
  shows "length (all_matches t (map (row_key st) prows) (lookup_init hash st t prows))
           \<le> length prows * length rows"
proof -
  let ?pd = "map (row_key st) prows" and ?ps = "lookup_init hash st t prows"
  from assms have wf: "wf_links (ht_next t)" by (simp add: built_def)
  from assms have B: "0 < bucket_size t" using calc_bucket_size_pos by (simp add: built_def)
  have "length (row_matches t ?pd (ps_next ?ps) i) \<le> length rows" if "i < length prows" for i
  proof -
    have "length (row_matches t ?pd (ps_next ?ps) i) \<le> length (chain_rows (ht_next t) (ps_next ?ps ! i))"
      by (simp add: row_matches_def)
    also have "\<dots> \<le> ps_next ?ps ! i" by (rule chain_rows_length[OF wf])
    also have "\<dots> \<le> length rows"
      using that assms B by (simp add: lookup_init_def built_def)
    finally show ?thesis .
  qed
  then have "\<forall>i \<in> set [0..<length prows]. length (row_matches t ?pd (ps_next ?ps) i) \<le> length rows"
    by simp
  from pending_matches_length[OF this] show ?thesis
    by (simp add: all_matches_def lookup_init_def)
qed

text \<open>
  Claim C6. In the table built from any rows under any key encoding and any hash function,
  the walk from the head of any bucket along \<open>next\<close> ends at the sentinel and visits,
  once each, exactly the build rows of that bucket whose key is not null: a row with a null
  key is in no chain. So every pair that the probe of any batch emits, over all the calls
  it takes, names a build row between 1 and the row count whose key is not null and equals
  the probe key. Any number of calls beyond the product of the two row counts is enough.
\<close>

theorem null_build_keys_excluded:
  assumes "t = construct_hash_table hash st rows" and "b < bucket_size t"
    and "0 < chunk"
    and "length prows * length rows < fuel"
  shows "\<exists>rs states.
     walk_chain (length (ht_next t)) (ht_next t) (first t ! b) = Some rs \<and>
     distinct rs \<and>
     set rs = {r. 1 \<le> r \<and> r \<le> length rows \<and> in_bucket hash rows t b r} \<and>
     (\<forall>r \<in> set rs. \<not> is_null_row (rows ! (r - 1))) \<and>
     probe_until_drained fuel chunk True t (map (row_key st) prows)
        (lookup_init hash st t prows) = Some states \<and>
     (\<forall>s \<in> set states. \<forall>p \<in> set (emitted s).
        1 \<le> snd p \<and> snd p \<le> length rows \<and> \<not> is_null_row (rows ! (snd p - 1)) \<and>
        row_key st (rows ! (snd p - 1)) = row_key st (prows ! fst p))"
proof -
  let ?pd = "map (row_key st) prows" and ?ps = "lookup_init hash st t prows"
  from assms(1) have bt: "built hash st rows (length rows) t" by (simp add: built_construct)
  then have wf: "wf_links (ht_next t)"
    and len: "length (build_data t) = length (ht_next t)"
    by (simp_all add: built_def)
  note fb = built_first_bound[OF bt assms(2)]
  from walk_chain_rows[OF wf fb less_imp_le[OF fb]]
  have w: "walk_chain (length (ht_next t)) (ht_next t) (first t ! b)
             = Some (chain_rows (ht_next t) (first t ! b))" .
  note d = chain_rows_distinct[OF wf, of "first t ! b"]
  note m = built_chain_members[OF bt assms(2)]
  from m have nn: "\<forall>r \<in> set (chain_rows (ht_next t) (first t ! b)).
      \<not> is_null_row (rows ! (r - 1))"
    by (simp add: in_bucket_def)
  have c0: "True \<longrightarrow> cur_row_match_count ?ps = 0" by (simp add: lookup_init_def)
  from all_matches_length[OF bt, of prows] assms(4)
  have fl: "length (all_matches t ?pd ?ps) < fuel" by simp
  from probe_until_drained_char[OF wf len assms(3) lookup_init_ok[OF bt] c0 fl]
  obtain states where s: "probe_until_drained fuel chunk True t ?pd ?ps = Some states"
    and dr: "drained chunk (all_matches t ?pd ?ps) states" by blast
  have e: "\<forall>s \<in> set states. \<forall>p \<in> set (emitted s).
        1 \<le> snd p \<and> snd p \<le> length rows \<and> \<not> is_null_row (rows ! (snd p - 1)) \<and>
        row_key st (rows ! (snd p - 1)) = row_key st (prows ! fst p)"
  proof (intro ballI)
    fix s p assume "s \<in> set states" "p \<in> set (emitted s)"
    from all_matches_built[OF bt drained_emitted_subset[OF dr this]]
    show "1 \<le> snd p \<and> snd p \<le> length rows \<and> \<not> is_null_row (rows ! (snd p - 1)) \<and>
        row_key st (rows ! (snd p - 1)) = row_key st (prows ! fst p)" by simp
  qed
  from w d m nn s e show ?thesis by blast
qed


lemma nullable_rows_facts:
  "length (nullable_rows n) = n" "1 < n \<Longrightarrow> \<not> no_nulls (nullable_rows n)"
proof -
  show "length (nullable_rows n) = n" by (simp add: nullable_rows_def)
  assume "1 < n"
  then have "nullable_rows n ! 1 = [None, None]" by (simp add: nullable_rows_def)
  moreover from \<open>1 < n\<close> have "nullable_rows n ! 1 \<in> set (nullable_rows n)"
    by (intro nth_mem) (simp add: nullable_rows_def)
  ultimately have "[None, None] \<in> set (nullable_rows n)" by simp
  moreover have "is_null_row [None, None]" by (simp add: is_null_row_def)
  ultimately show "\<not> no_nulls (nullable_rows n)" unfolding no_nulls_def by blast
qed

lemma construct_bucket_size_pos: "0 < bucket_size (construct_hash_table hash st rows)"
  using built_construct[of hash st rows] calc_bucket_size_pos by (simp add: built_def)

theorem null_build_keys_excluded_witness:
  "\<not> no_nulls (nullable_rows 6) \<and>
   0 < bucket_size (construct_hash_table key_hash CompositeFixed (nullable_rows 6)) \<and>
   (0::nat) < 4 \<and>
   length (nullable_rows 6) * length (nullable_rows 6) < (37::nat) \<and>
   (\<exists>rs states.
      walk_chain (length (ht_next (construct_hash_table key_hash CompositeFixed (nullable_rows 6))))
        (ht_next (construct_hash_table key_hash CompositeFixed (nullable_rows 6)))
        (first (construct_hash_table key_hash CompositeFixed (nullable_rows 6)) ! 0) = Some rs \<and>
      distinct rs \<and>
      set rs = {r. 1 \<le> r \<and> r \<le> length (nullable_rows 6) \<and>
                  in_bucket key_hash (nullable_rows 6)
                    (construct_hash_table key_hash CompositeFixed (nullable_rows 6)) 0 r} \<and>
      (\<forall>r \<in> set rs. \<not> is_null_row (nullable_rows 6 ! (r - 1))) \<and>
      probe_until_drained 37 4 True
        (construct_hash_table key_hash CompositeFixed (nullable_rows 6))
        (map (row_key CompositeFixed) (nullable_rows 6))
        (lookup_init key_hash CompositeFixed
           (construct_hash_table key_hash CompositeFixed (nullable_rows 6)) (nullable_rows 6))
        = Some states \<and>
      (\<forall>s \<in> set states. \<forall>p \<in> set (emitted s).
         1 \<le> snd p \<and> snd p \<le> length (nullable_rows 6) \<and>
         \<not> is_null_row (nullable_rows 6 ! (snd p - 1)) \<and>
         row_key CompositeFixed (nullable_rows 6 ! (snd p - 1))
           = row_key CompositeFixed (nullable_rows 6 ! fst p)))"
proof -
  have a: "\<not> no_nulls (nullable_rows 6)" by (rule nullable_rows_facts(2)) simp
  note b = construct_bucket_size_pos[of key_hash CompositeFixed "nullable_rows 6"]
  have c: "(0::nat) < 4" by simp
  have d: "length (nullable_rows 6) * length (nullable_rows 6) < (37::nat)"
    by (simp add: nullable_rows_facts(1))
  from a b c d null_build_keys_excluded[OF refl b c d] show ?thesis by blast
qed

subsection \<open>A batch with more pairs than the chunk holds\<close>










end
